theory Spec2Isabelle
  imports Main "HOL-Library.Word"
begin

unbundle bit_operations_syntax

section \<open>The decompression classes of book\_tools/pymobi/compression.py\<close>

text \<open>
  The module holds three classes with a \<open>pack\<close>/\<open>unpack\<close> pair each.
  \<open>Palmdoc.unpack3\<close> is the Python 3 decoder (it works on \<open>bytes\<close>, whose elements
  are integers 0..255); \<open>Huffcdic\<close> is Python 2 code (it compares and concatenates byte
  strings written as \<open>str\<close> literals and indexes the list that \<open>map\<close> returns), and
  mobi.py only calls \<open>Huffcdic.unpack\<close> when \<open>sys.version_info[0] < 3\<close>. Both kinds of
  byte string are lists of 8-bit words here; Python's unbounded integers are \<open>int\<close>.
\<close>

type_synonym byte = "8 word"
type_synonym bytes = "byte list"

text \<open>Every exception the module can raise, as a value.\<close>

datatype error =
    ValueError string
  | IndexError
  | AssertionError
  | StructError
  | TypeError
  | AttributeError
  | OverflowError

subsection \<open>Python's sequence and integer operations\<close>

text \<open>
  A slice bound \<open>k\<close> of a sequence of length \<open>len\<close>: a negative bound counts from the
  end, and every bound is clamped into \<open>0..len\<close>. A slice never raises.
\<close>

definition slice_bound :: "nat \<Rightarrow> int \<Rightarrow> nat" where
  "slice_bound len k =
     (if k < 0 then nat (max 0 (int len + k)) else min (nat k) len)"

definition py_slice :: "'a list \<Rightarrow> int \<Rightarrow> int \<Rightarrow> 'a list" where
  "py_slice xs a b =
     (let s = slice_bound (length xs) a; e = slice_bound (length xs) b
      in take (e - s) (drop s xs))"

text \<open>
  The position an index \<open>k\<close> denotes: a negative index counts from the end, and an
  index outside \<open>-len..len-1\<close> raises IndexError.
\<close>

definition py_index :: "nat \<Rightarrow> int \<Rightarrow> error + nat" where
  "py_index len k =
     (let j = (if k < 0 then int len + k else k)
      in if 0 \<le> j \<and> j < int len then Inr (nat j) else Inl IndexError)"

definition py_getitem :: "'a list \<Rightarrow> int \<Rightarrow> error + 'a" where
  "py_getitem xs k =
     (case py_index (length xs) k of Inl e \<Rightarrow> Inl e | Inr j \<Rightarrow> Inr (xs ! j))"

text \<open>\<open>v.to_bytes(1, "big")\<close>: one byte, OverflowError outside 0..255.\<close>

definition to_bytes1 :: "int \<Rightarrow> error + bytes" where
  "to_bytes1 v = (if 0 \<le> v \<and> v < 256 then Inr [word_of_int v] else Inl OverflowError)"

text \<open>
  \<open>a >> k\<close> where the count may be negative: a negative shift count raises ValueError.
  Shifts whose count cannot be negative are written with \<open>drop_bit\<close> and \<open>push_bit\<close>.
\<close>

definition py_rshift :: "int \<Rightarrow> int \<Rightarrow> error + int" where
  "py_rshift a k =
     (if k < 0 then Inl (ValueError ''negative shift count'') else Inr (drop_bit (nat k) a))"

subsection \<open>Palmdoc\<close>

definition Palmdoc_pack :: "bytes \<Rightarrow> error + bytes" where
  "Palmdoc_pack i = Inl (ValueError ''not implement'')"

text \<open>
  The run-length loop of \<open>unpack3\<close>,
  \<^verbatim>\<open>for z in range(n): o += o[-m].to_bytes(1, "big")\<close>:
  each round indexes the output as it stands in that round.
\<close>

fun fill_loop :: "bytes \<Rightarrow> int \<Rightarrow> nat \<Rightarrow> error + bytes" where
  "fill_loop out m 0 = Inr out"
| "fill_loop out m (Suc z) =
     (case py_getitem out (- m) of
        Inl e \<Rightarrow> Inl e
      | Inr b \<Rightarrow>
         (case to_bytes1 (uint b) of
            Inl e \<Rightarrow> Inl e
          | Inr bs \<Rightarrow> fill_loop (out @ bs) m z))"

text \<open>
  The two-byte back-reference branch, entered with the first byte \<open>c\<close> in 128..191 and
  \<open>p\<close> already past it. Without a second byte nothing happens.
\<close>

definition backref :: "bytes \<Rightarrow> bytes \<Rightarrow> nat \<Rightarrow> int \<Rightarrow> error + bytes \<times> nat" where
  "backref i out p c =
     (if p < length i then
        let c = push_bit 8 c OR uint (i ! p);
            p = p + 1;
            m = drop_bit 3 c AND 0x07FF;
            n = (c AND 7) + 3
        in if m > n then Inr (out @ py_slice out (- m) (n - m), p)
           else (case fill_loop out m (nat n) of
                   Inl e \<Rightarrow> Inl e
                 | Inr out' \<Rightarrow> Inr (out', p))
      else Inr (out, p))"

text \<open>
  One round of the \<open>while p < len(i)\<close> loop of \<open>unpack3\<close>, entered with \<open>p < len(i)\<close>:
  the new output and the new position, or the exception raised.
\<close>

definition unpack3_step :: "bytes \<Rightarrow> bytes \<Rightarrow> nat \<Rightarrow> error + bytes \<times> nat" where
  "unpack3_step i out p =
     (let c = uint (i ! p);
          p = p + 1
      in if c \<ge> 1 \<and> c \<le> 8 then Inr (out @ py_slice i (int p) (int p + c), p + nat c)
         else if c < 128 then
           (case to_bytes1 c of
              Inl e \<Rightarrow> Inl e
            | Inr b \<Rightarrow> Inr (out @ b, p))
         else if c \<ge> 192 then
           (case to_bytes1 (c XOR 128) of
              Inl e \<Rightarrow> Inl e
            | Inr b \<Rightarrow> Inr (out @ ([0x20] @ b), p))
         else backref i out p c)"

lemma unpack3_step_advances:
  "unpack3_step i out p = Inr (out', p') \<Longrightarrow> p < p'"
  by (auto simp: unpack3_step_def backref_def Let_def split: if_splits sum.splits)

function unpack3_loop :: "bytes \<Rightarrow> bytes \<Rightarrow> nat \<Rightarrow> error + bytes" where
  "unpack3_loop i out p =
     (if p < length i then
        (case unpack3_step i out p of
           Inl e \<Rightarrow> Inl e
         | Inr (out', p') \<Rightarrow> unpack3_loop i out' p')
      else Inr out)"
  by pat_completeness auto
termination
proof (relation "measure (\<lambda>(i, out, p). length i - p)")
  show "wf (measure (\<lambda>(i, out, p). length i - p))" by simp
next
  fix i out :: bytes and p :: nat and x2 :: "bytes \<times> nat" and out' p'
  assume "p < length i" and "unpack3_step i out p = Inr x2" and "(out', p') = x2"
  then have "p < p'" using unpack3_step_advances by metis
  with \<open>p < length i\<close> show "((i, out', p'), (i, out, p)) \<in> measure (\<lambda>(i, out, p). length i - p)"
    by simp
qed

definition unpack3 :: "bytes \<Rightarrow> error + bytes" where
  "unpack3 i = unpack3_loop i [] 0"

declare unpack3_loop.simps [simp del]

subsection \<open>struct\<close>

text \<open>The big-endian unsigned integer a byte string denotes.\<close>

definition be_int :: "bytes \<Rightarrow> int" where
  "be_int bs = foldl (\<lambda>acc b. acc * 256 + uint b) 0 bs"

text \<open>
  \<open>struct.unpack_from\<close> for one big-endian unsigned field of \<open>w\<close> bytes at offset
  \<open>off\<close>, and for \<open>k\<close> such fields in a row (\<open>">LL"\<close> is \<open>w = 4\<close>, \<open>k = 2\<close>). It raises
  struct.error unless the buffer holds the whole format from the offset on. Every
  offset the module passes is an unsigned field or a sum of such, so it is a \<open>nat\<close>.
\<close>

definition unpack_at :: "nat \<Rightarrow> bytes \<Rightarrow> nat \<Rightarrow> error + int" where
  "unpack_at w buf off =
     (if int (length buf) - int off < int w then Inl StructError
      else Inr (be_int (take w (drop off buf))))"

definition unpack_from :: "nat \<Rightarrow> nat \<Rightarrow> bytes \<Rightarrow> nat \<Rightarrow> error + int list" where
  "unpack_from w k buf off =
     (if int (length buf) - int off < int (k * w) then Inl StructError
      else Inr (map (\<lambda>j. be_int (take w (drop (off + j * w) buf))) [0..<k]))"

definition unpack_LL :: "bytes \<Rightarrow> nat \<Rightarrow> error + int \<times> int" where
  "unpack_LL buf off =
     (case unpack_from 4 2 buf off of
        Inl e \<Rightarrow> Inl e
      | Inr vs \<Rightarrow> Inr (vs ! 0, vs ! 1))"

text \<open>Python 2's \<open>map\<close> over a function that may raise: it stops at the first exception.\<close>

fun map_result :: "('a \<Rightarrow> error + 'b) \<Rightarrow> 'a list \<Rightarrow> error + 'b list" where
  "map_result f [] = Inr []"
| "map_result f (x # xs) =
     (case f x of
        Inl e \<Rightarrow> Inl e
      | Inr y \<Rightarrow>
         (case map_result f xs of
            Inl e \<Rightarrow> Inl e
          | Inr ys \<Rightarrow> Inr (y # ys)))"

text \<open>The extended slice \<open>xs[0::2]\<close>; \<open>xs[1::2]\<close> is \<open>stride2 (drop 1 xs)\<close>.\<close>

fun stride2 :: "'a list \<Rightarrow> 'a list" where
  "stride2 [] = []"
| "stride2 [x] = [x]"
| "stride2 (x # y # xs) = x # stride2 xs"

subsection \<open>Huffcdic: the decoder object and its loaders\<close>

text \<open>
  The class has no constructor: each attribute exists only once a loader has assigned it
  (\<open>None\<close> here means the attribute is not set, and reading it raises AttributeError).
  A fast-table entry is \<open>(codelen, term, maxcode)\<close>. A dictionary slot is a pair
  \<open>(slice, flag)\<close>, or Python's \<open>None\<close> while the slot is being resolved.
\<close>

type_synonym slot = "(bytes \<times> int) option"

record huffcdic =
  dict1 :: "(int \<times> int \<times> int) list option"
  mincode :: "int list option"
  maxcode :: "int list option"
  dictionary :: "slot list option"

definition new_huffcdic :: huffcdic where
  "new_huffcdic = \<lparr>dict1 = None, mincode = None, maxcode = None, dictionary = None\<rparr>"

definition HUFF_magic :: bytes where
  "HUFF_magic = [0x48, 0x55, 0x46, 0x46, 0x00, 0x00, 0x00, 0x18]"

definition CDIC_magic :: bytes where
  "CDIC_magic = [0x43, 0x44, 0x49, 0x43, 0x00, 0x00, 0x00, 0x10]"

text \<open>
  \<open>dict1_unpack\<close>, the local function of \<open>loadHuff\<close>. \<open>codelen\<close> is at most 31, so the
  shift count \<open>32 - codelen\<close> is positive.
\<close>

definition dict1_unpack :: "int \<Rightarrow> error + int \<times> int \<times> int" where
  "dict1_unpack v =
     (let codelen = v AND 0x1F;
          term = v AND 0x80;
          mx = drop_bit 8 v
      in if \<not> codelen \<noteq> 0 then Inl AssertionError
         else if codelen \<le> 8 \<and> term = 0 then Inl AssertionError
         else Inr (codelen, term, push_bit (nat (32 - codelen)) (mx + 1) - 1))"

text \<open>
  \<open>loadHuff\<close> returns the exception raised, if any, and the object as the call leaves it:
  \<open>self.dict1\<close> is assigned before the second table is read. The two \<open>enumerate\<close> loops
  run over 33 elements, so \<open>codelen\<close> ranges over 0..32 there.
\<close>

definition loadHuff :: "bytes \<Rightarrow> huffcdic \<Rightarrow> (error + unit) \<times> huffcdic" where
  "loadHuff huff self =
     (if py_slice huff 0 8 \<noteq> HUFF_magic then (Inl (ValueError ''invalid huff header''), self)
      else
        (case unpack_LL huff 8 of
           Inl e \<Rightarrow> (Inl e, self)
         | Inr (off1, off2) \<Rightarrow>
            (case unpack_from 4 256 huff (nat off1) of
               Inl e \<Rightarrow> (Inl e, self)
             | Inr vs \<Rightarrow>
                (case map_result dict1_unpack vs of
                   Inl e \<Rightarrow> (Inl e, self)
                 | Inr d1 \<Rightarrow>
                    (let self = self\<lparr>dict1 := Some d1\<rparr>
                     in case unpack_from 4 64 huff (nat off2) of
                          Inl e \<Rightarrow> (Inl e, self)
                        | Inr dict2 \<Rightarrow>
                           (let mins = map (\<lambda>(codelen, mn). push_bit (32 - codelen) mn)
                                         (enumerate 0 (0 # stride2 dict2));
                                maxs = map (\<lambda>(codelen, mx). push_bit (32 - codelen) (mx + 1) - 1)
                                         (enumerate 0 (0 # stride2 (drop 1 dict2)))
                            in (Inr (), self\<lparr>mincode := Some mins, maxcode := Some maxs,
                                             dictionary := Some []\<rparr>)))))))"

text \<open>\<open>getslice\<close>, the local function of \<open>loadCdic\<close>.\<close>

definition getslice :: "bytes \<Rightarrow> int \<Rightarrow> error + bytes \<times> int" where
  "getslice cdic off =
     (case unpack_at 2 cdic (nat (16 + off)) of
        Inl e \<Rightarrow> Inl e
      | Inr blen \<Rightarrow>
         Inr (py_slice cdic (18 + off) (18 + off + (blen AND 0x7FFF)), blen AND 0x8000))"

text \<open>
  \<open>loadCdic\<close>. A negative \<open>n\<close> makes the format string \<open>">-1H"\<close>, which struct rejects
  with struct.error. The list is extended only after \<open>map\<close> has returned.
\<close>

definition loadCdic :: "bytes \<Rightarrow> huffcdic \<Rightarrow> (error + unit) \<times> huffcdic" where
  "loadCdic cdic self =
     (if py_slice cdic 0 8 \<noteq> CDIC_magic then (Inl (ValueError ''invalid cdic header''), self)
      else
        (case unpack_LL cdic 8 of
           Inl e \<Rightarrow> (Inl e, self)
         | Inr (phrases, bits) \<Rightarrow>
            (case dictionary self of
               None \<Rightarrow> (Inl AttributeError, self)
             | Some ds \<Rightarrow>
                (let n = min (push_bit (nat bits) 1) (phrases - int (length ds))
                 in case (if n < 0 then Inl StructError else unpack_from 2 (nat n) cdic 16) of
                      Inl e \<Rightarrow> (Inl e, self)
                    | Inr offs \<Rightarrow>
                       (case map_result (getslice cdic) offs of
                          Inl e \<Rightarrow> (Inl e, self)
                        | Inr slots \<Rightarrow>
                           (Inr (), self\<lparr>dictionary := Some (ds @ map Some slots)\<rparr>))))))"

definition Huffcdic_pack :: "huffcdic \<Rightarrow> bytes \<Rightarrow> (error + bytes) \<times> huffcdic" where
  "Huffcdic_pack self i = (Inl (ValueError ''not implement''), self)"

subsection \<open>Huffcdic.unpack\<close>

text \<open>\<open>q = struct.Struct(">Q").unpack_from\<close>: eight bytes, big-endian.\<close>

definition q :: "bytes \<Rightarrow> nat \<Rightarrow> error + int" where
  "q data pos = unpack_at 8 data pos"

text \<open>The head of a round: \<open>if n <= 0: pos += 4; (x,) = q(data, pos); n += 32\<close>.\<close>

definition reload :: "bytes \<Rightarrow> nat \<Rightarrow> int \<Rightarrow> int \<Rightarrow> error + nat \<times> int \<times> int" where
  "reload data pos x n =
     (if n \<le> 0 then
        (case q data (pos + 4) of
           Inl e \<Rightarrow> Inl e
         | Inr x' \<Rightarrow> Inr (pos + 4, x', n + 32))
      else Inr (pos, x, n))"

text \<open>
  \<open>while code < self.mincode[codelen]: codelen += 1\<close>, over the tuple \<open>mins\<close>. It ends
  with the first length whose minimum does not exceed the code, or with the IndexError
  of the read past the tuple's end.
\<close>

function widen :: "int list \<Rightarrow> int \<Rightarrow> int \<Rightarrow> error + int" where
  "widen mins code codelen =
     (case py_getitem mins codelen of
        Inl e \<Rightarrow> Inl e
      | Inr mn \<Rightarrow> if code < mn then widen mins code (codelen + 1) else Inr codelen)"
  by pat_completeness auto
termination
  by (relation "measure (\<lambda>(mins, code, codelen). nat (int (length mins) - codelen))")
     (auto simp: py_getitem_def py_index_def Let_def split: if_splits)

declare widen.simps [simp del]

text \<open>
  The table lookup of a round: the code length and the maximal code of that length for
  the 32-bit window \<open>code\<close>.
\<close>

definition lookup :: "huffcdic \<Rightarrow> int \<Rightarrow> error + int \<times> int" where
  "lookup self code =
     (case dict1 self of
        None \<Rightarrow> Inl AttributeError
      | Some d1 \<Rightarrow>
         (case py_getitem d1 (drop_bit 24 code) of
            Inl e \<Rightarrow> Inl e
          | Inr (codelen, term, mx) \<Rightarrow>
             if term = 0 then
               (case mincode self of
                  None \<Rightarrow> Inl AttributeError
                | Some mins \<Rightarrow>
                   (case widen mins code codelen of
                      Inl e \<Rightarrow> Inl e
                    | Inr codelen' \<Rightarrow>
                       (case maxcode self of
                          None \<Rightarrow> Inl AttributeError
                        | Some maxs \<Rightarrow>
                           (case py_getitem maxs codelen' of
                              Inl e \<Rightarrow> Inl e
                            | Inr mx' \<Rightarrow> Inr (codelen', mx')))))
             else Inr (codelen, mx)))"

text \<open>
  A round up to the point where the code length is known: the window after the reload,
  the code, its length and the maximal code.
\<close>

definition decode_next ::
  "huffcdic \<Rightarrow> bytes \<Rightarrow> nat \<Rightarrow> int \<Rightarrow> int \<Rightarrow> error + (nat \<times> int \<times> int) \<times> int \<times> int \<times> int" where
  "decode_next self data pos x n =
     (case reload data pos x n of
        Inl e \<Rightarrow> Inl e
      | Inr (pos', x', n') \<Rightarrow>
         (case py_rshift x' n' of
            Inl e \<Rightarrow> Inl e
          | Inr sh \<Rightarrow>
             (let code = sh AND (push_bit 32 1 - 1)
              in case lookup self code of
                   Inl e \<Rightarrow> Inl e
                 | Inr (codelen, mx) \<Rightarrow> Inr ((pos', x', n'), code, codelen, mx))))"

text \<open>
  The decoder proper. The \<open>while True\<close> loop has no bound of its own (a code length of
  zero never ends it), so the model counts rounds: \<open>unpack_loop\<close> runs at most \<open>fuel\<close>
  rounds, and a nested \<open>self.unpack\<close> runs on what is left; \<open>None\<close> is "did not return
  within the fuel". A result carries the object as the call leaves it, also when it
  raises. \<open>fetch\<close> is the tail of a round,
  \<^verbatim>\<open>slice, flag = self.dictionary[r]; if not flag: ...\<close>,
  which returns the slice to append (\<open>sl\<close>).
\<close>

fun unpack :: "nat \<Rightarrow> huffcdic \<Rightarrow> bytes \<Rightarrow> ((error + bytes) \<times> huffcdic) option"
  and unpack_loop ::
    "nat \<Rightarrow> huffcdic \<Rightarrow> bytes \<Rightarrow> int \<Rightarrow> nat \<Rightarrow> int \<Rightarrow> int \<Rightarrow> bytes
       \<Rightarrow> ((error + bytes) \<times> huffcdic) option"
  and fetch :: "nat \<Rightarrow> huffcdic \<Rightarrow> int \<Rightarrow> ((error + bytes) \<times> huffcdic) option"
where
  "unpack fuel self data =
     (let bitsleft = int (length data) * 8;
          data = data @ replicate 8 0
      in case q data 0 of
           Inl e \<Rightarrow> Some (Inl e, self)
         | Inr x \<Rightarrow> unpack_loop fuel self data bitsleft 0 x 32 [])"
| "unpack_loop 0 self data bitsleft pos x n s = None"
| "unpack_loop (Suc fuel) self data bitsleft pos x n s =
     (case decode_next self data pos x n of
        Inl e \<Rightarrow> Some (Inl e, self)
      | Inr ((pos', x', n'), code, codelen, mx) \<Rightarrow>
         if bitsleft - codelen < 0 then Some (Inr s, self)
         else
           (case py_rshift (mx - code) (32 - codelen) of
              Inl e \<Rightarrow> Some (Inl e, self)
            | Inr r \<Rightarrow>
               (case fetch fuel self r of
                  None \<Rightarrow> None
                | Some (Inl e, self') \<Rightarrow> Some (Inl e, self')
                | Some (Inr sl, self') \<Rightarrow>
                   unpack_loop fuel self' data (bitsleft - codelen) pos' x' (n' - codelen)
                     (s @ sl))))"
| "fetch fuel self r =
     (case dictionary self of
        None \<Rightarrow> Some (Inl AttributeError, self)
      | Some ds \<Rightarrow>
         (case py_index (length ds) r of
            Inl e \<Rightarrow> Some (Inl e, self)
          | Inr j \<Rightarrow>
             (case ds ! j of
                None \<Rightarrow> Some (Inl TypeError, self)
              | Some (sl, flag) \<Rightarrow>
                 if flag = 0 then
                   (case unpack fuel (self\<lparr>dictionary := Some (ds[j := None])\<rparr>) sl of
                      None \<Rightarrow> None
                    | Some (Inl e, self') \<Rightarrow> Some (Inl e, self')
                    | Some (Inr sl', self') \<Rightarrow>
                       (case dictionary self' of
                          None \<Rightarrow> Some (Inl AttributeError, self')
                        | Some ds' \<Rightarrow>
                           (case py_index (length ds') r of
                              Inl e \<Rightarrow> Some (Inl e, self')
                            | Inr j' \<Rightarrow>
                               Some (Inr sl',
                                 self'\<lparr>dictionary := Some (ds'[j' := Some (sl', 1)])\<rparr>))))
                 else Some (Inr sl, self))))"

declare unpack.simps [simp del] unpack_loop.simps [simp del] fetch.simps [simp del]

subsection \<open>Conditions on the decoder object\<close>

text \<open>
  A slot is resolved when it holds a pair with a true flag (\<open>0x8000\<close> from \<open>loadCdic\<close>,
  \<open>1\<close> from \<open>unpack\<close>). \<open>codelens_positive\<close> says that no fast-table entry has code
  length zero, which \<open>loadHuff\<close> asserts.
\<close>

definition resolved :: "slot \<Rightarrow> bool" where
  "resolved slot = (case slot of None \<Rightarrow> False | Some (sl, flag) \<Rightarrow> flag \<noteq> 0)"

definition all_resolved :: "huffcdic \<Rightarrow> bool" where
  "all_resolved self = (case dictionary self of None \<Rightarrow> True | Some ds \<Rightarrow> list_all resolved ds)"

definition codelens_positive :: "huffcdic \<Rightarrow> bool" where
  "codelens_positive self =
     (case dict1 self of
        None \<Rightarrow> True
      | Some d1 \<Rightarrow> list_all (\<lambda>(codelen, term, mx). 1 \<le> codelen) d1)"

text \<open>
  \<open>resolved_kept self self'\<close>: the object \<open>self'\<close> differs from \<open>self\<close> at most in slots
  of the dictionary that were not resolved in \<open>self\<close>; the dictionary has kept its length.
\<close>

definition resolved_kept :: "huffcdic \<Rightarrow> huffcdic \<Rightarrow> bool" where
  "resolved_kept self self' =
     (self' = self\<lparr>dictionary := dictionary self'\<rparr> \<and>
      (case dictionary self of
         None \<Rightarrow> dictionary self' = None
       | Some ds \<Rightarrow>
          (case dictionary self' of
             None \<Rightarrow> False
           | Some ds' \<Rightarrow> list_all2 (\<lambda>a b. resolved a \<longrightarrow> b = a) ds ds')))"

section \<open>Palmdoc.unpack3\<close>

subsection \<open>Auxiliary facts\<close>

lemma to_bytes1_uint: "to_bytes1 (uint (b :: byte)) = Inr [b]"
  using uint_lt2p [of b] by (simp add: to_bytes1_def)

lemma py_getitem_neg:
  "1 \<le> m \<Longrightarrow> m \<le> int (length xs) \<Longrightarrow> py_getitem xs (- m) = Inr (xs ! (length xs - nat m))"
  by (auto simp: py_getitem_def py_index_def Let_def nat_diff_distrib)

lemma py_getitem_neg_fail:
  "int (length xs) < m \<Longrightarrow> py_getitem xs (- m) = Inl IndexError"
  by (auto simp: py_getitem_def py_index_def Let_def)

lemma py_getitem_zero:
  "py_getitem xs 0 = (if xs = [] then Inl IndexError else Inr (xs ! 0))"
  by (auto simp: py_getitem_def py_index_def Let_def)

lemma fill_loop_rec:
  "1 \<le> m \<Longrightarrow> m \<le> int (length out) \<Longrightarrow>
   \<exists>res. fill_loop out m n = Inr res \<and> length res = length out + n \<and> take (length out) res = out
     \<and> (\<forall>k<n. res ! (length out + k) = res ! (length out + k - nat m))"
proof (induction n arbitrary: out)
  case 0
  then show ?case by simp
next
  case (Suc n)
  let ?b = "out ! (length out - nat m)"
  let ?out = "out @ [?b]"
  have m': "m \<le> int (length ?out)" using Suc.prems by simp
  from Suc.IH [OF Suc.prems(1) m'] obtain res where
    r: "fill_loop ?out m n = Inr res" and
    len: "length res = length ?out + n" and
    tk: "take (length ?out) res = ?out" and
    rec: "\<forall>k<n. res ! (length ?out + k) = res ! (length ?out + k - nat m)"
    by blast
  have step: "fill_loop out m (Suc n) = Inr res"
    using Suc.prems r by (simp add: py_getitem_neg to_bytes1_uint)
  have pre: "\<And>j. j < length out + 1 \<Longrightarrow> res ! j = ?out ! j"
  proof -
    fix j assume "j < length out + 1"
    then have "take (length ?out) res ! j = res ! j" by simp
    then show "res ! j = ?out ! j" using tk by simp
  qed
  have tk': "take (length out) res = out"
  proof -
    have "take (length out) (take (length ?out) res) = take (length out) ?out" using tk by simp
    then show ?thesis by (simp add: min_def)
  qed
  have "\<forall>k<Suc n. res ! (length out + k) = res ! (length out + k - nat m)"
  proof (intro allI impI)
    fix k assume k: "k < Suc n"
    show "res ! (length out + k) = res ! (length out + k - nat m)"
    proof (cases k)
      case 0
      have mpos: "0 < nat m" "nat m \<le> length out" using Suc.prems by auto
      have "res ! (length out) = ?b" using pre [of "length out"] by simp
      moreover have "res ! (length out - nat m) = ?b"
        using pre [of "length out - nat m"] mpos by (simp add: nth_append)
      ultimately show ?thesis using 0 by simp
    next
      case (Suc k')
      then have "k' < n" using k by simp
      with rec have "res ! (length ?out + k') = res ! (length ?out + k' - nat m)" by blast
      then show ?thesis using Suc by simp
    qed
  qed
  with step len tk' show ?case by simp
qed

lemma rec_closed:
  fixes res :: "'a list"
  assumes m: "0 < m" "m \<le> len"
    and tk: "\<forall>j<len. res ! j = out ! j"
    and rec: "\<forall>k<n. res ! (len + k) = res ! (len + k - m)"
  shows "k < n \<Longrightarrow> res ! (len + k) = out ! (len - m + k mod m)"
proof (induction k rule: less_induct)
  case (less k)
  show ?case
  proof (cases "k < m")
    case True
    have "res ! (len + k) = res ! (len + k - m)" using rec less.prems by blast
    also have "\<dots> = out ! (len + k - m)" using tk True m by simp
    finally show ?thesis using True m by simp
  next
    case False
    then have km: "m \<le> k" by simp
    have "res ! (len + k) = res ! (len + k - m)" using rec less.prems by blast
    also have "len + k - m = len + (k - m)" using km by simp
    also have "res ! (len + (k - m)) = out ! (len - m + (k - m) mod m)"
      using less.IH [of "k - m"] km m less.prems by simp
    also have "(k - m) mod m = k mod m" using km by (simp add: le_mod_geq)
    finally show ?thesis .
  qed
qed

lemma fill_loop_periodic:
  assumes "1 \<le> m" "m \<le> int (length out)"
  shows "fill_loop out m n =
           Inr (out @ map (\<lambda>k. out ! (length out - nat m + k mod nat m)) [0..<n])"
proof -
  from fill_loop_rec [OF assms, of n] obtain res where
    r: "fill_loop out m n = Inr res" and
    len: "length res = length out + n" and
    tk: "take (length out) res = out" and
    rec: "\<forall>k<n. res ! (length out + k) = res ! (length out + k - nat m)"
    by blast
  have m: "0 < nat m" "nat m \<le> length out" using assms by auto
  have pre: "\<forall>j<length out. res ! j = out ! j"
  proof (intro allI impI)
    fix j assume "j < length out"
    then have "take (length out) res ! j = res ! j" by simp
    then show "res ! j = out ! j" using tk by simp
  qed
  have "res = out @ map (\<lambda>k. out ! (length out - nat m + k mod nat m)) [0..<n]"
  proof (rule nth_equalityI)
    show "length res = length (out @ map (\<lambda>k. out ! (length out - nat m + k mod nat m)) [0..<n])"
      using len by simp
  next
    fix j assume j: "j < length res"
    show "res ! j = (out @ map (\<lambda>k. out ! (length out - nat m + k mod nat m)) [0..<n]) ! j"
    proof (cases "j < length out")
      case True
      then show ?thesis using pre by (simp add: nth_append)
    next
      case False
      then obtain k where k: "j = length out + k" "k < n"
        using j len by (metis add_diff_inverse_nat nat_add_left_cancel_less)
      show ?thesis
        using rec_closed [OF m pre rec k(2)] k by (simp add: nth_append)
    qed
  qed
  with r show ?thesis by simp
qed

lemma fill_loop_one:
  assumes "out \<noteq> []"
  shows "fill_loop out 1 n = Inr (out @ replicate n (last out))"
proof -
  have "1 \<le> int (length out)" using assms by (cases out) auto
  from fill_loop_periodic [OF _ this, of n]
  have "fill_loop out 1 n = Inr (out @ map (\<lambda>k. out ! (length out - 1)) [0..<n])" by simp
  moreover have "map (\<lambda>k. out ! (length out - 1)) [0..<n] = replicate n (last out)"
    using assms by (simp add: map_replicate_const last_conv_nth)
  ultimately show ?thesis by simp
qed

lemma fill_loop_zero:
  "out \<noteq> [] \<Longrightarrow> fill_loop out 0 n = Inr (out @ replicate n (out ! 0))"
proof (induction n arbitrary: out)
  case 0
  then show ?case by simp
next
  case (Suc n)
  have "fill_loop (out @ [out ! 0]) 0 n = Inr ((out @ [out ! 0]) @ replicate n ((out @ [out ! 0]) ! 0))"
    by (rule Suc.IH) simp
  moreover have "(out @ [out ! 0]) ! 0 = out ! 0" using Suc.prems by (simp add: nth_append)
  ultimately show ?case
    using Suc.prems by (simp add: py_getitem_zero to_bytes1_uint replicate_app_Cons_same)
qed

lemma fill_loop_fail:
  "int (length out) < m \<Longrightarrow> fill_loop out m (Suc n) = Inl IndexError"
  by (simp add: py_getitem_neg_fail)

lemma unpack3_step_backref:
  assumes "128 \<le> uint (i ! p)" "uint (i ! p) < 192"
  shows "unpack3_step i out p = backref i out (p + 1) (uint (i ! p))"
  using assms by (simp add: unpack3_step_def Let_def)


lemma backref_fill:
  assumes "p + 1 < length i" and "128 \<le> uint (i ! p)" and "uint (i ! p) < 192"
    and "v = push_bit 8 (uint (i ! p)) OR uint (i ! (p + 1))"
    and "m = drop_bit 3 v AND 0x07FF" and "n = (v AND 7) + 3" and "m \<le> n"
  shows "unpack3_step i out p =
           (case fill_loop out m (nat n) of Inl e \<Rightarrow> Inl e | Inr out' \<Rightarrow> Inr (out', Suc (Suc p)))"
  using assms by (simp add: unpack3_step_backref backref_def Let_def)

lemma backref_bulk:
  assumes "p + 1 < length i" and "128 \<le> uint (i ! p)" and "uint (i ! p) < 192"
    and "v = push_bit 8 (uint (i ! p)) OR uint (i ! (p + 1))"
    and "m = drop_bit 3 v AND 0x07FF" and "n = (v AND 7) + 3" and "n < m"
  shows "unpack3_step i out p = Inr (out @ py_slice out (- m) (n - m), p + 2)"
  using assms by (simp add: unpack3_step_backref backref_def Let_def)

lemma uint_xor_128: "uint (c :: byte) XOR 128 = uint (c XOR 128)"
  by (simp add: uint_xor)

lemma to_bytes1_xor: "to_bytes1 (uint (c :: byte) XOR 128) = Inr [c XOR 128]"
  unfolding uint_xor_128 by (rule to_bytes1_uint)

lemma unpack3_step_space:
  "192 \<le> uint (i ! p) \<Longrightarrow> unpack3_step i out p = Inr (out @ [0x20, (i ! p) XOR 0x80], p + 1)"
  by (simp add: unpack3_step_def Let_def to_bytes1_xor)

lemma py_slice_fwd: "py_slice xs (int a) (int a + int c) = take c (drop a xs)"
  by (auto simp: py_slice_def slice_bound_def Let_def min_def nat_add_distrib)

lemma py_slice_before_start:
  "n < m \<Longrightarrow> int (length out) < m \<Longrightarrow>
   py_slice out (- m) (n - m) = take (nat (int (length out) + n - m)) out"
  by (auto simp: py_slice_def slice_bound_def Let_def max_def add_diff_eq)

lemma fill_loop_error:
  assumes "0 \<le> m"
  shows "(fill_loop out m (Suc z) = Inl e) = (e = IndexError \<and> (out = [] \<or> int (length out) < m))"
proof (cases "out = [] \<or> int (length out) < m")
  case True
  have "fill_loop out m (Suc z) = Inl IndexError"
  proof (cases "int (length out) < m")
    case True
    then show ?thesis by (rule fill_loop_fail)
  next
    case False
    with \<open>out = [] \<or> int (length out) < m\<close> assms have "out = []" and "m = 0" by auto
    then show ?thesis by (simp add: py_getitem_zero)
  qed
  with True show ?thesis by auto
next
  case False
  then have ne: "out \<noteq> []" and le: "m \<le> int (length out)" by auto
  have "\<exists>res. fill_loop out m (Suc z) = Inr res"
  proof (cases "m = 0")
    case True
    with ne show ?thesis using fill_loop_zero [of out "Suc z"] by blast
  next
    case False
    with assms have "1 \<le> m" by simp
    then show ?thesis using fill_loop_periodic [OF _ le, of "Suc z"] by blast
  qed
  with False show ?thesis by auto
qed

lemma unpack3_step_error:
  assumes "c = uint (i ! p)"
    and "v = push_bit 8 c OR uint (i ! (p + 1))"
    and "m = drop_bit 3 v AND 0x07FF" and "n = (v AND 7) + 3"
  shows "(unpack3_step i out p = Inl e) =
           (e = IndexError \<and> 128 \<le> c \<and> c < 192 \<and> p + 1 < length i \<and> m \<le> n
            \<and> (out = [] \<or> int (length out) < m))"
proof -
  have c0: "0 \<le> c" using assms(1) by simp
  consider (run) "1 \<le> c \<and> c \<le> 8" | (lit) "\<not> (1 \<le> c \<and> c \<le> 8) \<and> c < 128"
    | (sp) "192 \<le> c" | (br) "128 \<le> c \<and> c < 192" by linarith
  then show ?thesis
  proof cases
    case run
    then show ?thesis using assms(1) by (simp add: unpack3_step_def Let_def)
  next
    case lit
    then have "to_bytes1 c = Inr [word_of_int c]" using c0 by (simp add: to_bytes1_def)
    with lit show ?thesis using assms(1) by (simp add: unpack3_step_def Let_def)
  next
    case sp
    have "unpack3_step i out p = Inr (out @ [0x20, (i ! p) XOR 0x80], p + 1)"
      using sp assms(1) by (simp add: unpack3_step_space)
    with sp show ?thesis by simp
  next
    case br
    have st: "unpack3_step i out p = backref i out (p + 1) c"
      using br assms(1) by (simp add: unpack3_step_backref)
    show ?thesis
    proof (cases "p + 1 < length i")
      case False
      with st br show ?thesis by (simp add: backref_def)
    next
      case True
      show ?thesis
      proof (cases "n < m")
        case True
        have "unpack3_step i out p = Inr (out @ py_slice out (- m) (n - m), p + 2)"
          using backref_bulk [of p i v m n out] \<open>p + 1 < length i\<close> br assms True by simp
        with True show ?thesis by simp
      next
        case False
        then have mn: "m \<le> n" by simp
        have "0 \<le> v AND 7" by simp
        then have nn: "nat n = Suc (nat (n - 1))" using assms(4) by linarith
        have m0: "0 \<le> m" using assms(3) by simp
        have "unpack3_step i out p =
                (case fill_loop out m (nat n) of Inl e \<Rightarrow> Inl e | Inr out' \<Rightarrow> Inr (out', Suc (Suc p)))"
          using backref_fill [of p i v m n out] \<open>p + 1 < length i\<close> br assms mn by simp
        then have "(unpack3_step i out p = Inl e) = (fill_loop out m (Suc (nat (n - 1))) = Inl e)"
          unfolding nn by (simp split: sum.splits)
        also have "\<dots> = (e = IndexError \<and> (out = [] \<or> int (length out) < m))"
          using m0 by (rule fill_loop_error)
        finally show ?thesis using br \<open>p + 1 < length i\<close> mn by simp
      qed
    qed
  qed
qed

lemma unpack3_loop_error: "unpack3_loop i out p = Inl e \<Longrightarrow> e = IndexError"
proof (induction i out p rule: unpack3_loop.induct)
  case (1 i out p)
  show ?case
  proof (cases "p < length i")
    case False
    with "1.prems" show ?thesis by (simp add: unpack3_loop.simps [of i out p])
  next
    case True
    show ?thesis
    proof (cases "unpack3_step i out p")
      case (Inl e')
      with True "1.prems" have "e' = e" by (simp add: unpack3_loop.simps [of i out p])
      with Inl show ?thesis using unpack3_step_error [OF refl refl refl refl, of i out p e] by simp
    next
      case (Inr r)
      obtain out' p' where r: "r = (out', p')" by (cases r)
      with True Inr "1.prems" have "unpack3_loop i out' p' = Inl e"
        by (simp add: unpack3_loop.simps [of i out p])
      with "1.IH" [OF True Inr r [symmetric]] show ?thesis by simp
    qed
  qed
qed

subsection \<open>The run-length fill of a back-reference\<close>

text \<open>
  The record \<open>a b 0x80 0x10\<close> is two literals and a back-reference with distance 2 and
  length 3. The fill appends \<open>a b a\<close>, not three copies of \<open>a\<close>: \<open>o[-m]\<close> is read
  from the output as it has grown.
\<close>

theorem fill_repeats_single_byte_counterexample:
  "unpack3 [0x61, 0x62, 0x80, 0x10] = Inr [0x61, 0x62, 0x61, 0x62, 0x61]
   \<and> unpack3 [0x61, 0x62, 0x80, 0x10] \<noteq> Inr ([0x61, 0x62] @ replicate 3 0x61)"
  by code_simp

text \<open>
  Claim C1, as the code has it. A back-reference with distance \<open>m\<close> and length \<open>n\<close>,
  \<open>m \<le> n\<close> and \<open>m\<close> at most the length of the output, appends \<open>n\<close> bytes one at a
  time, each read \<open>m\<close> positions before the end of the output as grown so far. For
  \<open>1 \<le> m\<close> the \<open>k\<close>-th appended byte is the byte at position
  \<open>len - m + k mod m\<close> of the output before the fill: the last \<open>m\<close> bytes repeat
  cyclically. For \<open>m = 1\<close> this is a run of \<open>n\<close> copies of the last byte. For \<open>m = 0\<close>
  the index \<open>-0\<close> is \<open>0\<close>, and a non-empty output gets \<open>n\<close> copies of its first byte.
\<close>

theorem backref_fill_drifts:
  assumes "p + 1 < length i" and "128 \<le> uint (i ! p)" and "uint (i ! p) < 192"
    and "v = push_bit 8 (uint (i ! p)) OR uint (i ! (p + 1))"
    and "m = drop_bit 3 v AND 0x07FF" and "n = (v AND 7) + 3"
    and "m \<le> n" and "m \<le> int (length out)"
  shows "(1 \<le> m \<longrightarrow> unpack3_step i out p =
            Inr (out @ map (\<lambda>k. out ! (length out - nat m + k mod nat m)) [0..<nat n], p + 2))
       \<and> (m = 1 \<longrightarrow> unpack3_step i out p = Inr (out @ replicate (nat n) (last out), p + 2))
       \<and> (m = 0 \<and> out \<noteq> [] \<longrightarrow>
            unpack3_step i out p = Inr (out @ replicate (nat n) (out ! 0), p + 2))"
proof -
  note st = backref_fill [OF assms(1-7), of out]
  have a: "1 \<le> m \<longrightarrow> unpack3_step i out p =
            Inr (out @ map (\<lambda>k. out ! (length out - nat m + k mod nat m)) [0..<nat n], p + 2)"
    using st assms(8) by (simp add: fill_loop_periodic)
  have b: "m = 1 \<longrightarrow> unpack3_step i out p = Inr (out @ replicate (nat n) (last out), p + 2)"
  proof
    assume m1: "m = 1"
    then have "out \<noteq> []" using assms(8) by auto
    then show "unpack3_step i out p = Inr (out @ replicate (nat n) (last out), p + 2)"
      using st m1 by (simp add: fill_loop_one)
  qed
  have c: "m = 0 \<and> out \<noteq> [] \<longrightarrow>
            unpack3_step i out p = Inr (out @ replicate (nat n) (out ! 0), p + 2)"
    using st by (simp add: fill_loop_zero)
  from a b c show ?thesis by blast
qed

theorem backref_fill_drifts_witness:
  "unpack3_step [0x80, 0x10] [0x61, 0x62] 0 = Inr ([0x61, 0x62, 0x61, 0x62, 0x61], 2)
   \<and> drop_bit 3 (push_bit 8 (uint (0x80 :: byte)) OR uint (0x10 :: byte)) AND 0x07FF = (2 :: int)
   \<and> ((push_bit 8 (uint (0x80 :: byte)) OR uint (0x10 :: byte)) AND 7) + 3 = (3 :: int)"
proof -
  have h1: "0 + 1 < length [0x80, 0x10 :: byte]" by simp
  have h2: "128 \<le> uint ([0x80, 0x10 :: byte] ! 0)" by simp
  have h3: "uint ([0x80, 0x10 :: byte] ! 0) < 192" by simp
  have h4: "32784 = push_bit 8 (uint ([0x80, 0x10 :: byte] ! 0)) OR uint ([0x80, 0x10 :: byte] ! (0 + 1))"
    by simp
  have h5: "(2 :: int) = drop_bit 3 32784 AND 0x07FF" by simp
  have h6: "(3 :: int) = (32784 AND 7) + 3" by simp
  have h7: "(2 :: int) \<le> 3" by simp
  have h8: "2 \<le> int (length [0x61, 0x62 :: byte])" by simp
  have e: "map (\<lambda>k. [0x61, 0x62 :: byte] ! (length [0x61, 0x62 :: byte] - nat 2 + k mod nat 2))
             [0..<nat 3] = [0x61, 0x62, 0x61]"
    by code_simp
  have "(1 :: int) \<le> 2" by simp
  with backref_fill_drifts [OF h1 h2 h3 h4 h5 h6 h7 h8]
  have "unpack3_step [0x80, 0x10] [0x61, 0x62] 0 =
          Inr ([0x61, 0x62] @ map (\<lambda>k. [0x61, 0x62 :: byte] ! (length [0x61, 0x62 :: byte] - nat 2 + k mod nat 2))
             [0..<nat 3], 0 + 2)"
    by blast
  then have "unpack3_step [0x80, 0x10] [0x61, 0x62] 0 = Inr ([0x61, 0x62, 0x61, 0x62, 0x61], 2)"
    unfolding e by simp
  moreover have "drop_bit 3 (push_bit 8 (uint (0x80 :: byte)) OR uint (0x10 :: byte)) AND 0x07FF = (2 :: int)"
    by simp
  moreover have "((push_bit 8 (uint (0x80 :: byte)) OR uint (0x10 :: byte)) AND 7) + 3 = (3 :: int)"
    by simp
  ultimately show ?thesis by blast
qed

subsection \<open>Reads past the input or before the output\<close>

text \<open>
  The record \<open>0x05 A\<close> announces a run of five raw bytes and holds one. The decoder
  returns the one byte.
\<close>

theorem unpack3_truncated_run_counterexample:
  "unpack3 [0x05, 0x41] = Inr [0x41]"
  by code_simp

text \<open>
  Claim C4, as the code has it. \<open>unpack3\<close> has no bounds check of its own. A raw-copy run
  (control byte 1..8) is a slice of the input, so a run that reaches past the end copies
  the bytes that are there and the decoder returns. A bulk back-reference
  (\<open>n < m\<close>) is a slice of the output, so a distance that reaches before the start
  copies the first \<open>len + n - m\<close> bytes (none if that is not positive) and decoding goes
  on. A round raises exactly when it is a run-length fill (\<open>m \<le> n\<close>, second byte
  present) whose index \<open>o[-m]\<close> is out of range: the distance exceeds the length of the
  output, or the output is empty (a distance of 0 reads \<open>o[0]\<close>). The exception is
  IndexError, and the decoder raises no other.
\<close>

theorem unpack3_no_bounds_guard:
  assumes "p < length i" and "c = uint (i ! p)"
    and "v = push_bit 8 c OR uint (i ! (p + 1))"
    and "m = drop_bit 3 v AND 0x07FF" and "n = (v AND 7) + 3"
  shows "(1 \<le> c \<and> c \<le> 8 \<longrightarrow>
            unpack3_step i out p = Inr (out @ take (nat c) (drop (p + 1) i), p + 1 + nat c))
       \<and> (1 \<le> c \<and> c \<le> 8 \<and> int (length i) < int p + 1 + c \<longrightarrow>
            unpack3_loop i out p = Inr (out @ drop (p + 1) i))
       \<and> (128 \<le> c \<and> c < 192 \<and> p + 1 < length i \<and> n < m \<longrightarrow>
            unpack3_step i out p = Inr (out @ py_slice out (- m) (n - m), p + 2))
       \<and> (128 \<le> c \<and> c < 192 \<and> p + 1 < length i \<and> n < m \<and> int (length out) < m \<longrightarrow>
            unpack3_loop i out p =
              unpack3_loop i (out @ take (nat (int (length out) + n - m)) out) (p + 2))
       \<and> (128 \<le> c \<and> c < 192 \<and> p + 1 < length i \<and> m \<le> n
            \<and> (out = [] \<or> int (length out) < m) \<longrightarrow>
            unpack3_loop i out p = Inl IndexError)
       \<and> (unpack3_step i out p = Inl e) =
            (e = IndexError \<and> 128 \<le> c \<and> c < 192 \<and> p + 1 < length i \<and> m \<le> n
             \<and> (out = [] \<or> int (length out) < m))
       \<and> (unpack3_loop i out p = Inl e \<longrightarrow> e = IndexError)"
proof -
  have run: "unpack3_step i out p = Inr (out @ take (nat c) (drop (p + 1) i), p + 1 + nat c)"
    if "1 \<le> c \<and> c \<le> 8"
  proof -
    have "py_slice i (int (p + 1)) (int (p + 1) + c) = take (nat c) (drop (p + 1) i)"
      using py_slice_fwd [of i "p + 1" "nat c"] that by simp
    then show ?thesis using that assms(2) by (simp add: unpack3_step_def Let_def)
  qed
  have run_end: "unpack3_loop i out p = Inr (out @ drop (p + 1) i)"
    if "1 \<le> c \<and> c \<le> 8 \<and> int (length i) < int p + 1 + c"
  proof -
    have "length i - (p + 1) \<le> nat c" using that by linarith
    then have "take (nat c) (drop (p + 1) i) = drop (p + 1) i" by simp
    moreover have "\<not> p + 1 + nat c < length i" using that by linarith
    ultimately show ?thesis
      using run that assms(1)
      by (simp add: unpack3_loop.simps [of i out p] unpack3_loop.simps [of i _ "Suc (p + nat c)"])
  qed
  have bulk: "unpack3_step i out p = Inr (out @ py_slice out (- m) (n - m), p + 2)"
    if "128 \<le> c \<and> c < 192 \<and> p + 1 < length i \<and> n < m"
    using that assms backref_bulk [of p i v m n out] by simp
  have bulk_before: "unpack3_loop i out p =
              unpack3_loop i (out @ take (nat (int (length out) + n - m)) out) (p + 2)"
    if "128 \<le> c \<and> c < 192 \<and> p + 1 < length i \<and> n < m \<and> int (length out) < m"
    using that bulk assms(1)
    by (simp add: unpack3_loop.simps [of i out p] py_slice_before_start)
  have step: "(unpack3_step i out p = Inl e) =
            (e = IndexError \<and> 128 \<le> c \<and> c < 192 \<and> p + 1 < length i \<and> m \<le> n
             \<and> (out = [] \<or> int (length out) < m))" for e
    using assms(2-5) by (rule unpack3_step_error)
  have fill: "unpack3_loop i out p = Inl IndexError"
    if h: "128 \<le> c \<and> c < 192 \<and> p + 1 < length i \<and> m \<le> n
             \<and> (out = [] \<or> int (length out) < m)"
  proof -
    have "unpack3_step i out p = Inl IndexError" using step [of IndexError] h by blast
    then show ?thesis using assms(1) by (simp add: unpack3_loop.simps [of i out p])
  qed
  have only: "unpack3_loop i out p = Inl e \<longrightarrow> e = IndexError"
    using unpack3_loop_error by blast
  from run run_end bulk bulk_before fill step [of e] only show ?thesis by blast
qed

theorem unpack3_no_bounds_guard_witness:
  "unpack3_loop [0x05, 0x41] [] 0 = Inr [0x41]
   \<and> unpack3_loop [0x80, 0x28] [0x61] 0 = Inr [0x61]
   \<and> unpack3_loop [0x80, 0x08] [] 0 = Inl IndexError
   \<and> unpack3_loop [0x80, 0x00] [] 0 = Inl IndexError"
proof -
  have a: "unpack3_loop [0x05, 0x41] [] 0 = Inr ([] @ drop (0 + 1) [0x05, 0x41])"
  proof -
    have h1: "0 < length [0x05, 0x41 :: byte]" by simp
    have h2: "(5 :: int) = uint ([0x05, 0x41 :: byte] ! 0)" by simp
    have h: "1 \<le> (5 :: int) \<and> (5 :: int) \<le> 8
               \<and> int (length [0x05, 0x41 :: byte]) < int 0 + 1 + 5" by simp
    from unpack3_no_bounds_guard [OF h1 h2 refl refl refl, of "[]"] h show ?thesis by blast
  qed
  have b: "unpack3_loop [0x80, 0x28] [0x61] 0 =
             unpack3_loop [0x80, 0x28] ([0x61] @ take (nat (int (length [0x61 :: byte]) + 3 - 5)) [0x61]) (0 + 2)"
  proof -
    have h1: "0 < length [0x80, 0x28 :: byte]" by simp
    have h2: "(128 :: int) = uint ([0x80, 0x28 :: byte] ! 0)" by simp
    have h3: "(32808 :: int) = push_bit 8 128 OR uint ([0x80, 0x28 :: byte] ! (0 + 1))" by simp
    have h4: "(5 :: int) = drop_bit 3 32808 AND 0x07FF" by simp
    have h5: "(3 :: int) = (32808 AND 7) + 3" by simp
    have h: "128 \<le> (128 :: int) \<and> (128 :: int) < 192 \<and> 0 + 1 < length [0x80, 0x28 :: byte]
               \<and> (3 :: int) < 5 \<and> int (length [0x61 :: byte]) < 5" by simp
    from unpack3_no_bounds_guard [OF h1 h2 h3 h4 h5, of "[0x61]"] h show ?thesis by blast
  qed
  have c: "unpack3_loop [0x80, 0x08] [] 0 = Inl IndexError"
  proof -
    have h1: "0 < length [0x80, 0x08 :: byte]" by simp
    have h2: "(128 :: int) = uint ([0x80, 0x08 :: byte] ! 0)" by simp
    have h3: "(32776 :: int) = push_bit 8 128 OR uint ([0x80, 0x08 :: byte] ! (0 + 1))" by simp
    have h4: "(1 :: int) = drop_bit 3 32776 AND 0x07FF" by simp
    have h5: "(3 :: int) = (32776 AND 7) + 3" by simp
    have h: "128 \<le> (128 :: int) \<and> (128 :: int) < 192 \<and> 0 + 1 < length [0x80, 0x08 :: byte]
               \<and> (1 :: int) \<le> 3
               \<and> (([] :: bytes) = [] \<or> int (length ([] :: bytes)) < 1)" by simp
    from unpack3_no_bounds_guard [OF h1 h2 h3 h4 h5, of "[]"] h show ?thesis by blast
  qed
  have d: "unpack3_loop [0x80, 0x00] [] 0 = Inl IndexError"
  proof -
    have h1: "0 < length [0x80, 0x00 :: byte]" by simp
    have h2: "(128 :: int) = uint ([0x80, 0x00 :: byte] ! 0)" by simp
    have h3: "(32768 :: int) = push_bit 8 128 OR uint ([0x80, 0x00 :: byte] ! (0 + 1))" by simp
    have h4: "(0 :: int) = drop_bit 3 32768 AND 0x07FF" by simp
    have h5: "(3 :: int) = (32768 AND 7) + 3" by simp
    have h: "128 \<le> (128 :: int) \<and> (128 :: int) < 192 \<and> 0 + 1 < length [0x80, 0x00 :: byte]
               \<and> (0 :: int) \<le> 3
               \<and> (([] :: bytes) = [] \<or> int (length ([] :: bytes)) < 0)" by simp
    from unpack3_no_bounds_guard [OF h1 h2 h3 h4 h5, of "[]"] h show ?thesis by blast
  qed
  from a b c d show ?thesis
    by (simp add: unpack3_loop.simps [of _ _ "Suc (Suc 0)"])
qed

subsection \<open>The space-prefix branch\<close>

text \<open>
  Claim C8. A control byte \<open>c \<ge> 192\<close> makes the loop append two bytes, a space (0x20)
  and \<open>c XOR 0x80\<close>, and go on behind the control byte; the record \<open>[0xC1]\<close> decodes to
  a space and \<open>A\<close>.
\<close>

theorem unpack3_space_prefix:
  "(p < length i \<and> 192 \<le> uint (i ! p) \<longrightarrow>
      unpack3_loop i out p = unpack3_loop i (out @ [0x20, (i ! p) XOR 0x80]) (p + 1))
   \<and> unpack3 [0xC1] = Inr [0x20, 0x41]"
proof
  show "p < length i \<and> 192 \<le> uint (i ! p) \<longrightarrow>
      unpack3_loop i out p = unpack3_loop i (out @ [0x20, (i ! p) XOR 0x80]) (p + 1)"
    by (subst unpack3_loop.simps) (simp add: unpack3_step_space)
  show "unpack3 [0xC1] = Inr [0x20, 0x41]"
    by code_simp
qed

theorem unpack3_space_prefix_witness:
  "(1::nat) < length [0x41, 0xC1 :: byte] \<and> 192 \<le> uint ([0x41, 0xC1 :: byte] ! 1)
   \<and> unpack3_loop [0x41, 0xC1] [0x41] 1 = Inr [0x41, 0x20, 0x41]"
  using unpack3_space_prefix [of 1 "[0x41, 0xC1]" "[0x41]"]
  by (simp add: unpack3_loop.simps [of _ _ "Suc (Suc 0)"])

section \<open>The compression direction\<close>

text \<open>
  Claim C9. \<open>pack\<close> raises \<open>ValueError("not implement")\<close> on every input, for the
  PalmDOC scheme and for the Huffman/dictionary scheme alike; neither returns encoded
  output.
\<close>

theorem pack_unsupported:
  "Palmdoc_pack i = Inl (ValueError ''not implement'')
   \<and> Huffcdic_pack self i = (Inl (ValueError ''not implement''), self)
   \<and> Palmdoc_pack i \<noteq> Inr out
   \<and> fst (Huffcdic_pack self i) \<noteq> Inr out"
  by (simp add: Palmdoc_pack_def Huffcdic_pack_def)

section \<open>The loaders of Huffcdic\<close>

subsection \<open>Auxiliary facts\<close>

lemma py_slice_head: "py_slice xs 0 8 = take 8 xs"
  by (simp add: py_slice_def slice_bound_def Let_def min_def)

lemma unpack_from_error: "unpack_from w k buf off = Inl e \<Longrightarrow> e = StructError"
  by (simp add: unpack_from_def split: if_splits)

lemma unpack_at_error: "unpack_at w buf off = Inl e \<Longrightarrow> e = StructError"
  by (simp add: unpack_at_def split: if_splits)

lemma unpack_LL_error: "unpack_LL buf off = Inl e \<Longrightarrow> e = StructError"
  by (auto simp: unpack_LL_def split: sum.splits dest: unpack_from_error)

lemma dict1_unpack_error: "dict1_unpack v = Inl e \<Longrightarrow> e = AssertionError"
  by (simp add: dict1_unpack_def Let_def split: if_splits)

lemma getslice_error: "getslice cdic off = Inl e \<Longrightarrow> e = StructError"
  by (auto simp: getslice_def split: sum.splits dest: unpack_at_error)

lemma map_result_error:
  "map_result f xs = Inl e \<Longrightarrow> \<exists>x\<in>set xs. f x = Inl e"
  by (induction xs) (auto split: sum.splits)

lemma map_result_first_error:
  assumes "x \<in> set xs" and "f x = Inl e" and all: "\<And>y e'. f y = Inl e' \<Longrightarrow> e' = e"
  shows "map_result f xs = Inl e"
  using assms(1)
proof (induction xs)
  case Nil
  then show ?case by simp
next
  case (Cons a xs)
  show ?case
  proof (cases "f a")
    case (Inl e')
    then have "e' = e" by (rule all)
    with Inl show ?thesis by simp
  next
    case (Inr y)
    then have "x \<noteq> a" using assms(2) by auto
    then have "x \<in> set xs" using Cons.prems by simp
    then have "map_result f xs = Inl e" by (rule Cons.IH)
    with Inr show ?thesis by simp
  qed
qed

lemma loadHuff_error_cases:
  "fst (loadHuff huff self) = Inl e \<Longrightarrow> take 8 huff = HUFF_magic \<Longrightarrow>
   e = StructError \<or> e = AssertionError"
  by (auto simp: loadHuff_def py_slice_head Let_def split: sum.splits prod.splits
      dest: unpack_LL_error unpack_from_error map_result_error dict1_unpack_error)

lemma loadCdic_error_cases:
  "fst (loadCdic cdic self) = Inl e \<Longrightarrow> take 8 cdic = CDIC_magic \<Longrightarrow>
   e = StructError \<or> e = AttributeError"
  by (auto simp: loadCdic_def py_slice_head Let_def split: sum.splits prod.splits option.splits if_splits
      dest: unpack_LL_error unpack_from_error map_result_error getslice_error)

lemma map_result_replicate:
  "f x = Inr y \<Longrightarrow> map_result f (replicate k x) = Inr (replicate k y)"
  by (induction k) simp_all

lemma chunk_nth:
  "\<forall>c\<in>set cs. length c = w \<Longrightarrow> j < length cs \<Longrightarrow>
   take w (drop (j * w) (concat cs @ post)) = cs ! j"
proof (induction cs arbitrary: j)
  case Nil
  then show ?case by simp
next
  case (Cons c cs)
  show ?case
  proof (cases j)
    case 0
    then show ?thesis using Cons.prems by simp
  next
    case (Suc j')
    have "drop (Suc j' * w) (concat (c # cs) @ post) = drop (j' * w) (concat cs @ post)"
      using Cons.prems by simp
    then show ?thesis using Cons.IH [of j'] Cons.prems Suc by simp
  qed
qed

lemma length_concat_chunks:
  "\<forall>c\<in>set cs. length c = w \<Longrightarrow> length (concat cs) = length cs * w"
  by (induction cs) simp_all

lemma drop_length_append: "drop (length xs + n) (xs @ ys) = drop n ys"
  by simp

lemma unpack_from_chunks:
  assumes "\<forall>c\<in>set cs. length c = w" and "off = length pre" and "k = length cs"
  shows "unpack_from w k (pre @ concat cs @ post) off = Inr (map be_int cs)"
proof -
  have len: "\<not> int (length (pre @ concat cs @ post)) - int off < int (k * w)"
    using assms length_concat_chunks [OF assms(1)] by simp
  have "map (\<lambda>j. be_int (take w (drop (off + j * w) (pre @ concat cs @ post)))) [0..<k]
          = map be_int cs"
  proof (rule nth_equalityI)
    show "length (map (\<lambda>j. be_int (take w (drop (off + j * w) (pre @ concat cs @ post)))) [0..<k])
            = length (map be_int cs)"
      using assms by simp
  next
    fix j assume "j < length (map (\<lambda>j. be_int (take w (drop (off + j * w) (pre @ concat cs @ post)))) [0..<k])"
    then have j: "j < length cs" using assms by simp
    have "take w (drop (off + j * w) (pre @ concat cs @ post)) = cs ! j"
      unfolding assms(2) drop_length_append by (rule chunk_nth [OF assms(1) j])
    then have "be_int (take w (drop (off + j * w) (pre @ concat cs @ post))) = be_int (cs ! j)"
      by (rule arg_cong)
    then show "map (\<lambda>j. be_int (take w (drop (off + j * w) (pre @ concat cs @ post)))) [0..<k] ! j
                 = map be_int cs ! j"
      using j assms(3) by (simp del: drop_append take_append)
  qed
  with len show ?thesis by (simp add: unpack_from_def del: drop_append take_append)
qed

lemma loadHuff_success:
  assumes "py_slice huff 0 8 = HUFF_magic" and "unpack_LL huff 8 = Inr (off1, off2)"
    and "unpack_from 4 256 huff (nat off1) = Inr vs" and "map_result dict1_unpack vs = Inr d1"
    and "unpack_from 4 64 huff (nat off2) = Inr dict2"
  shows "fst (loadHuff huff self) = Inr () \<and> dict1 (snd (loadHuff huff self)) = Some d1
         \<and> dictionary (snd (loadHuff huff self)) = Some []"
  using assms by (simp add: loadHuff_def Let_def)

text \<open>A header blob whose two tables overlap at offset 16 and repeat one four-byte entry.\<close>

lemma uniform_blob_tables:
  assumes c: "length c = 4"
    and blob: "blob = HUFF_magic @ [0, 0, 0, 16, 0, 0, 0, 16] @ concat (replicate 256 c)"
  shows "py_slice blob 0 8 = HUFF_magic" and "take 8 blob = HUFF_magic"
    and "unpack_LL blob 8 = Inr (16, 16)"
    and "unpack_from 4 256 blob (nat 16) = Inr (replicate 256 (be_int c))"
    and "unpack_from 4 64 blob (nat 16) = Inr (replicate 64 (be_int c))"
proof -
  show "py_slice blob 0 8 = HUFF_magic"
    by (simp add: py_slice_head HUFF_magic_def blob)
  show "take 8 blob = HUFF_magic"
    by (simp add: HUFF_magic_def blob)
  have "unpack_from 4 2 (HUFF_magic @ concat [[0, 0, 0, 16], [0, 0, 0, 16]] @ concat (replicate 256 c)) 8
          = Inr (map be_int [[0, 0, 0, 16], [0, 0, 0, 16]])"
    by (rule unpack_from_chunks) (simp_all add: HUFF_magic_def)
  moreover have "HUFF_magic @ concat [[0, 0, 0, 16], [0, 0, 0, 16]] @ concat (replicate 256 c) = blob"
    by (simp add: blob)
  ultimately have "unpack_from 4 2 blob 8 = Inr (map be_int [[0, 0, 0, 16], [0, 0, 0, 16]])"
    by (simp only:)
  then show "unpack_LL blob 8 = Inr (16, 16)"
    by (simp add: unpack_LL_def be_int_def)
  have "unpack_from 4 256 ((HUFF_magic @ [0, 0, 0, 16, 0, 0, 0, 16]) @ concat (replicate 256 c) @ []) 16
          = Inr (map be_int (replicate 256 c))"
    by (rule unpack_from_chunks) (simp_all add: HUFF_magic_def c)
  moreover have "(HUFF_magic @ [0, 0, 0, 16, 0, 0, 0, 16]) @ concat (replicate 256 c) @ [] = blob"
    by (simp add: blob)
  ultimately show "unpack_from 4 256 blob (nat 16) = Inr (replicate 256 (be_int c))"
    by (simp only: map_replicate nat_numeral)
  have "replicate (64 + 192) c = replicate 64 c @ replicate 192 c"
    by (rule replicate_add)
  then have split: "replicate 256 c = replicate 64 c @ replicate 192 c"
    by simp
  have "unpack_from 4 64 ((HUFF_magic @ [0, 0, 0, 16, 0, 0, 0, 16]) @ concat (replicate 64 c) @ concat (replicate 192 c)) 16
          = Inr (map be_int (replicate 64 c))"
    by (rule unpack_from_chunks) (simp_all add: HUFF_magic_def c)
  moreover have "(HUFF_magic @ [0, 0, 0, 16, 0, 0, 0, 16]) @ concat (replicate 64 c) @ concat (replicate 192 c) = blob"
    unfolding blob split by simp
  ultimately show "unpack_from 4 64 blob (nat 16) = Inr (replicate 64 (be_int c))"
    by (simp only: map_replicate nat_numeral)
qed

lemma loadHuff_uniform:
  assumes c: "length c = 4" and e: "dict1_unpack (be_int c) = Inr e"
    and blob: "blob = HUFF_magic @ [0, 0, 0, 16, 0, 0, 0, 16] @ concat (replicate 256 c)"
  shows "fst (loadHuff blob self) = Inr () \<and> dict1 (snd (loadHuff blob self)) = Some (replicate 256 e)
         \<and> dictionary (snd (loadHuff blob self)) = Some []"
proof -
  note t = uniform_blob_tables [OF c blob]
  have d1: "map_result dict1_unpack (replicate 256 (be_int c)) = Inr (replicate 256 e)"
    by (rule map_result_replicate) (rule e)
  show ?thesis
    by (rule loadHuff_success [OF t(1) t(3) t(4) d1 t(5)])
qed

lemma dict1_unpack_bad:
  "(dict1_unpack v = Inl AssertionError) = (v AND 0x1F = 0 \<or> (v AND 0x1F \<le> 8 \<and> v AND 0x80 = 0))"
  by (simp add: dict1_unpack_def Let_def)

lemma map_result_ok:
  "(\<And>x. x \<in> set xs \<Longrightarrow> \<exists>y. f x = Inr y) \<Longrightarrow> \<exists>ys. map_result f xs = Inr ys"
proof (induction xs)
  case Nil
  then show ?case by simp
next
  case (Cons a xs)
  then obtain y where "f a = Inr y" by auto
  moreover from Cons obtain ys where "map_result f xs = Inr ys" by auto
  ultimately show ?case by simp
qed

subsection \<open>The header check\<close>

text \<open>
  Claim C5. \<open>loadHuff\<close> raises \<open>ValueError("invalid huff header")\<close> exactly when the first
  eight bytes of its blob are not the HUFF tag, and \<open>loadCdic\<close> raises
  \<open>ValueError("invalid cdic header")\<close> exactly when the first eight bytes are not the CDIC
  tag (every other failure of a loader is a different exception); after such a failure
  the object is as it was before the call.
\<close>

theorem loaders_check_magic:
  "(fst (loadHuff huff self) = Inl (ValueError ''invalid huff header'') \<longleftrightarrow> take 8 huff \<noteq> HUFF_magic)
   \<and> (fst (loadCdic cdic self) = Inl (ValueError ''invalid cdic header'') \<longleftrightarrow> take 8 cdic \<noteq> CDIC_magic)
   \<and> (take 8 huff \<noteq> HUFF_magic \<longrightarrow> snd (loadHuff huff self) = self)
   \<and> (take 8 cdic \<noteq> CDIC_magic \<longrightarrow> snd (loadCdic cdic self) = self)"
proof -
  have h1: "fst (loadHuff huff self) = Inl (ValueError ''invalid huff header'')"
    if "take 8 huff \<noteq> HUFF_magic"
    using that by (simp add: loadHuff_def py_slice_head)
  have h2: "take 8 huff \<noteq> HUFF_magic"
    if "fst (loadHuff huff self) = Inl (ValueError ''invalid huff header'')"
    using loadHuff_error_cases [OF that] by auto
  have c1: "fst (loadCdic cdic self) = Inl (ValueError ''invalid cdic header'')"
    if "take 8 cdic \<noteq> CDIC_magic"
    using that by (simp add: loadCdic_def py_slice_head)
  have c2: "take 8 cdic \<noteq> CDIC_magic"
    if "fst (loadCdic cdic self) = Inl (ValueError ''invalid cdic header'')"
    using loadCdic_error_cases [OF that] by auto
  have h3: "snd (loadHuff huff self) = self" if "take 8 huff \<noteq> HUFF_magic"
    using that by (simp add: loadHuff_def py_slice_head)
  have c3: "snd (loadCdic cdic self) = self" if "take 8 cdic \<noteq> CDIC_magic"
    using that by (simp add: loadCdic_def py_slice_head)
  from h1 h2 c1 c2 h3 c3 show ?thesis by blast
qed

theorem loaders_check_magic_witness:
  "take 8 [0x48, 0x55 :: byte] \<noteq> HUFF_magic \<and> take 8 ([] :: bytes) \<noteq> CDIC_magic
   \<and> loadHuff [0x48, 0x55]
        \<lparr>dict1 = Some [(8, 128, 1)], mincode = Some [0], maxcode = Some [0],
          dictionary = Some [Some ([0x41], 1)]\<rparr> =
       (Inl (ValueError ''invalid huff header''),
        \<lparr>dict1 = Some [(8, 128, 1)], mincode = Some [0], maxcode = Some [0],
          dictionary = Some [Some ([0x41], 1)]\<rparr>)
   \<and> loadCdic []
        \<lparr>dict1 = Some [(8, 128, 1)], mincode = Some [0], maxcode = Some [0],
          dictionary = Some [Some ([0x41], 1)]\<rparr> =
       (Inl (ValueError ''invalid cdic header''),
        \<lparr>dict1 = Some [(8, 128, 1)], mincode = Some [0], maxcode = Some [0],
          dictionary = Some [Some ([0x41], 1)]\<rparr>)"
proof -
  let ?st = "\<lparr>dict1 = Some [(8, 128, 1)], mincode = Some [0], maxcode = Some [0],
          dictionary = Some [Some ([0x41], 1)]\<rparr>"
  have h: "take 8 [0x48, 0x55 :: byte] \<noteq> HUFF_magic" by (simp add: HUFF_magic_def)
  have c: "take 8 ([] :: bytes) \<noteq> CDIC_magic" by (simp add: CDIC_magic_def)
  from loaders_check_magic [of "[0x48, 0x55]" ?st "[]"] h c
  have "fst (loadHuff [0x48, 0x55] ?st) = Inl (ValueError ''invalid huff header'')"
    and "snd (loadHuff [0x48, 0x55] ?st) = ?st"
    and "fst (loadCdic [] ?st) = Inl (ValueError ''invalid cdic header'')"
    and "snd (loadCdic [] ?st) = ?st"
    by blast+
  with h c show ?thesis by (simp add: prod_eq_iff)
qed

subsection \<open>The assertions on the fast table\<close>

text \<open>
  A header blob whose 256 entries are all \<open>0x00000089\<close>: code length 9 with the terminal
  bit set. \<open>loadHuff\<close> returns, and the table holds the entries.
\<close>

theorem loadHuff_accepts_long_terminal_counterexample:
  "fst (loadHuff (HUFF_magic @ [0, 0, 0, 16, 0, 0, 0, 16] @ concat (replicate 256 [0, 0, 0, 0x89]))
          new_huffcdic) = Inr ()
   \<and> dict1 (snd (loadHuff (HUFF_magic @ [0, 0, 0, 16, 0, 0, 0, 16] @ concat (replicate 256 [0, 0, 0, 0x89]))
          new_huffcdic)) = Some (replicate 256 (9, 0x80, 0x7FFFFF))"
proof -
  have c: "length [0, 0, 0, 0x89 :: byte] = 4" by simp
  have e: "dict1_unpack (be_int [0, 0, 0, 0x89]) = Inr (9, 0x80, 0x7FFFFF)"
    by (simp add: be_int_def dict1_unpack_def Let_def)
  from loadHuff_uniform [OF c e refl, of new_huffcdic] show ?thesis by blast
qed

text \<open>
  Claim C3, as the code has it. For a blob with the HUFF tag whose offsets and 256-entry
  table can be read, \<open>loadHuff\<close> raises AssertionError, leaving the object unchanged,
  exactly when some entry has code length zero or has code length at most 8 without the
  terminal bit. The second assertion is \<open>if codelen <= 8: assert term\<close>: it constrains
  the short entries, not the terminal ones.
\<close>

theorem loadHuff_asserts_entries:
  assumes "take 8 huff = HUFF_magic" and "unpack_LL huff 8 = Inr (off1, off2)"
    and "unpack_from 4 256 huff (nat off1) = Inr vs"
  shows "((\<exists>v\<in>set vs. v AND 0x1F = 0 \<or> (v AND 0x1F \<le> 8 \<and> v AND 0x80 = 0))
            \<longrightarrow> loadHuff huff self = (Inl AssertionError, self))
       \<and> (fst (loadHuff huff self) = Inl AssertionError
            \<longrightarrow> (\<exists>v\<in>set vs. v AND 0x1F = 0 \<or> (v AND 0x1F \<le> 8 \<and> v AND 0x80 = 0)))"
proof -
  have magic: "py_slice huff 0 8 = HUFF_magic" using assms(1) by (simp add: py_slice_head)
  have bad: "loadHuff huff self = (Inl AssertionError, self)"
    if "\<exists>v\<in>set vs. v AND 0x1F = 0 \<or> (v AND 0x1F \<le> 8 \<and> v AND 0x80 = 0)"
  proof -
    from that obtain v where v: "v \<in> set vs" "dict1_unpack v = Inl AssertionError"
      using dict1_unpack_bad by blast
    have "map_result dict1_unpack vs = Inl AssertionError"
      using v dict1_unpack_error by (rule map_result_first_error)
    then show ?thesis using magic assms by (simp add: loadHuff_def)
  qed
  have good: "\<exists>v\<in>set vs. v AND 0x1F = 0 \<or> (v AND 0x1F \<le> 8 \<and> v AND 0x80 = 0)"
    if f: "fst (loadHuff huff self) = Inl AssertionError"
  proof (rule ccontr)
    assume no: "\<not> (\<exists>v\<in>set vs. v AND 0x1F = 0 \<or> (v AND 0x1F \<le> 8 \<and> v AND 0x80 = 0))"
    have "\<exists>y. dict1_unpack x = Inr y" if "x \<in> set vs" for x
    proof (cases "dict1_unpack x")
      case (Inl e)
      then have "dict1_unpack x = Inl AssertionError" using dict1_unpack_error by blast
      then show ?thesis using no that dict1_unpack_bad by blast
    next
      case (Inr y)
      then show ?thesis by blast
    qed
    then obtain d1 where d1: "map_result dict1_unpack vs = Inr d1"
      using map_result_ok [of vs dict1_unpack] by blast
    show False
    proof (cases "unpack_from 4 64 huff (nat off2)")
      case (Inl e)
      then have "e = StructError" by (rule unpack_from_error)
      then show False using f magic assms d1 Inl by (simp add: loadHuff_def Let_def)
    next
      case (Inr dict2)
      then show False using f magic assms d1 by (simp add: loadHuff_def Let_def)
    qed
  qed
  from bad good show ?thesis by blast
qed

theorem loadHuff_asserts_entries_witness:
  "(\<exists>v\<in>set (replicate 256 (5 :: int)). v AND 0x1F = 0 \<or> (v AND 0x1F \<le> 8 \<and> v AND 0x80 = 0))
   \<and> loadHuff (HUFF_magic @ [0, 0, 0, 16, 0, 0, 0, 16] @ concat (replicate 256 [0, 0, 0, 0x05]))
        new_huffcdic = (Inl AssertionError, new_huffcdic)"
proof -
  have c: "length [0, 0, 0, 0x05 :: byte] = 4" by simp
  note t = uniform_blob_tables [OF c refl]
  have v: "be_int [0, 0, 0, 0x05] = 5" by (simp add: be_int_def)
  have b: "\<exists>v\<in>set (replicate 256 (5 :: int)). v AND 0x1F = 0 \<or> (v AND 0x1F \<le> 8 \<and> v AND 0x80 = 0)"
    by simp
  from loadHuff_asserts_entries [OF t(2) t(3) t(4) [unfolded v], of new_huffcdic] b
  show ?thesis by blast
qed

subsection \<open>The order of the loaders\<close>

text \<open>
  Claim C10. A successful \<open>loadHuff\<close> leaves \<open>self.dictionary\<close> as the empty list,
  whatever slots it held; on an object whose \<open>dictionary\<close> attribute is not set, as on
  a new one, \<open>loadCdic\<close> raises and appends nothing.
\<close>

theorem loadHuff_resets_dictionary:
  "(fst (loadHuff huff self) = Inr () \<longrightarrow> dictionary (snd (loadHuff huff self)) = Some [])
   \<and> (dictionary self = None \<longrightarrow> (\<exists>e. loadCdic cdic self = (Inl e, self)))
   \<and> dictionary new_huffcdic = None"
proof -
  have a: "dictionary (snd (loadHuff huff self)) = Some []" if "fst (loadHuff huff self) = Inr ()"
    using that by (auto simp: loadHuff_def Let_def split: if_splits sum.splits prod.splits)
  have b: "\<exists>e. loadCdic cdic self = (Inl e, self)" if "dictionary self = None"
    using that by (auto simp: loadCdic_def Let_def split: if_splits sum.splits prod.splits)
  have c: "dictionary new_huffcdic = None" by (simp add: new_huffcdic_def)
  from a b c show ?thesis by blast
qed

theorem loadHuff_resets_dictionary_witness:
  "fst (loadHuff (HUFF_magic @ [0, 0, 0, 16, 0, 0, 0, 16] @ concat (replicate 256 [0, 0, 0, 0x88]))
          \<lparr>dict1 = None, mincode = None, maxcode = None,
            dictionary = Some [Some ([0x41], 0x8000)]\<rparr>) = Inr ()
   \<and> dictionary (snd (loadHuff (HUFF_magic @ [0, 0, 0, 16, 0, 0, 0, 16] @ concat (replicate 256 [0, 0, 0, 0x88]))
          \<lparr>dict1 = None, mincode = None, maxcode = None,
            dictionary = Some [Some ([0x41], 0x8000)]\<rparr>)) = Some []
   \<and> dictionary new_huffcdic = None
   \<and> (\<exists>e. loadCdic (CDIC_magic @ [0, 0, 0, 1, 0, 0, 0, 0, 0, 2, 0x80, 0x01, 0x41]) new_huffcdic
              = (Inl e, new_huffcdic))"
proof -
  let ?st = "\<lparr>dict1 = None, mincode = None, maxcode = None,
            dictionary = Some [Some ([0x41], 0x8000)]\<rparr>"
  let ?blob = "HUFF_magic @ [0, 0, 0, 16, 0, 0, 0, 16] @ concat (replicate 256 [0, 0, 0, 0x88])"
  let ?cdic = "CDIC_magic @ [0, 0, 0, 1, 0, 0, 0, 0, 0, 2, 0x80, 0x01, 0x41]"
  have c: "length [0, 0, 0, 0x88 :: byte] = 4" by simp
  have e: "dict1_unpack (be_int [0, 0, 0, 0x88]) = Inr (8, 0x80, 0xFFFFFF)"
    by (simp add: be_int_def dict1_unpack_def Let_def)
  from loadHuff_uniform [OF c e refl, of ?st]
  have ok: "fst (loadHuff ?blob ?st) = Inr ()" by blast
  note t = loadHuff_resets_dictionary [of ?blob ?st ?cdic]
  note t' = loadHuff_resets_dictionary [of ?blob new_huffcdic ?cdic]
  from t ok have "dictionary (snd (loadHuff ?blob ?st)) = Some []" by blast
  moreover from t have n: "dictionary new_huffcdic = None" by blast
  moreover from n t' have "\<exists>e. loadCdic ?cdic new_huffcdic = (Inl e, new_huffcdic)" by blast
  ultimately show ?thesis using ok by blast
qed

section \<open>Huffcdic.unpack\<close>

subsection \<open>Auxiliary facts\<close>

lemma widen_ge: "widen mins code c = Inr c' \<Longrightarrow> c \<le> c'"
proof (induction mins code c rule: widen.induct)
  case (1 mins code codelen)
  show ?case
  proof (cases "py_getitem mins codelen")
    case (Inl e)
    with "1.prems" show ?thesis by (simp add: widen.simps [of mins code codelen])
  next
    case (Inr mn)
    show ?thesis
    proof (cases "code < mn")
      case True
      with Inr "1.prems" have "widen mins code (codelen + 1) = Inr c'"
        by (simp add: widen.simps [of mins code codelen])
      with "1.IH" [OF Inr True] show ?thesis by simp
    next
      case False
      with Inr "1.prems" show ?thesis by (simp add: widen.simps [of mins code codelen])
    qed
  qed
qed

lemma py_getitem_mem: "py_getitem xs k = Inr x \<Longrightarrow> x \<in> set xs"
  by (auto simp: py_getitem_def py_index_def Let_def split: if_splits)

lemma lookup_codelen:
  assumes "codelens_positive self" and "lookup self code = Inr (codelen, mx)"
  shows "1 \<le> codelen"
proof -
  from assms(2) obtain d1 where d1: "dict1 self = Some d1"
    by (auto simp: lookup_def split: option.splits)
  from assms(2) d1 obtain c0 tm m0 where e: "py_getitem d1 (drop_bit 24 code) = Inr (c0, tm, m0)"
    by (auto simp: lookup_def split: sum.splits)
  then have "(c0, tm, m0) \<in> set d1" by (rule py_getitem_mem)
  with assms(1) d1 have c0: "1 \<le> c0"
    by (auto simp: codelens_positive_def list_all_iff)
  show ?thesis
  proof (cases "tm = 0")
    case True
    with assms(2) d1 e obtain mins where "widen mins code c0 = Inr codelen"
      by (auto simp: lookup_def split: option.splits sum.splits)
    then have "c0 \<le> codelen" by (rule widen_ge)
    with c0 show ?thesis by simp
  next
    case False
    with assms(2) d1 e have "codelen = c0" by (simp add: lookup_def)
    with c0 show ?thesis by simp
  qed
qed

lemma decode_next_codelen:
  assumes "codelens_positive self" and "decode_next self data pos x n = Inr (w, code, codelen, mx)"
  shows "1 \<le> codelen"
proof -
  from assms(2) have "\<exists>c. lookup self c = Inr (codelen, mx)"
    by (auto simp: decode_next_def Let_def split: sum.splits prod.splits)
  with assms(1) show ?thesis using lookup_codelen by blast
qed

lemma fetch_resolved:
  assumes "dictionary self = Some ds" and "py_index (length ds) r = Inr j"
    and "ds ! j = Some (sl, flag)" and "flag \<noteq> 0"
  shows "fetch k self r = Some (Inr sl, self)"
  using assms by (simp add: fetch.simps)

lemma py_index_less: "py_index len r = Inr j \<Longrightarrow> j < len"
  by (auto simp: py_index_def Let_def split: if_splits)

lemma fetch_all_resolved:
  assumes "all_resolved self"
  shows "\<exists>res. \<forall>k. fetch k self r = Some (res, self)"
proof (cases "dictionary self")
  case None
  then show ?thesis by (simp add: fetch.simps)
next
  case (Some ds)
  show ?thesis
  proof (cases "py_index (length ds) r")
    case (Inl e)
    with Some show ?thesis by (simp add: fetch.simps)
  next
    case (Inr j)
    then have "j < length ds" by (rule py_index_less)
    with assms Some have "resolved (ds ! j)"
      by (simp add: all_resolved_def list_all_length)
    then obtain sl flag where "ds ! j = Some (sl, flag)" "flag \<noteq> 0"
      by (auto simp: resolved_def split: option.splits)
    with Some Inr have "\<forall>k. fetch k self r = Some (Inr sl, self)"
      by (simp add: fetch_resolved)
    then show ?thesis by blast
  qed
qed

lemma loop_terminates:
  assumes cp: "codelens_positive self" and ar: "all_resolved self"
  shows "\<exists>res. (\<forall>k. bitsleft < int k \<and> 0 < k \<longrightarrow>
                   unpack_loop k self data bitsleft pos x n s = Some (res, self))
               \<and> (\<forall>out. res = Inr out \<longrightarrow> (\<exists>t. out = s @ t))"
proof (induction "nat bitsleft" arbitrary: bitsleft pos x n s rule: less_induct)
  case less
  show ?case
  proof (cases "decode_next self data pos x n")
    case (Inl e)
    have "unpack_loop k self data bitsleft pos x n s = Some (Inl e, self)" if "0 < k" for k
    proof -
      from that obtain k0 where "k = Suc k0" by (cases k) auto
      with Inl show ?thesis by (simp add: unpack_loop.simps)
    qed
    then show ?thesis by (intro exI [of _ "Inl e"]) simp
  next
    case (Inr v)
    then obtain pos' x' n' code codelen mx where
      v: "decode_next self data pos x n = Inr ((pos', x', n'), code, codelen, mx)"
      by (cases v) auto
    have cl: "1 \<le> codelen" using cp v by (rule decode_next_codelen)
    show ?thesis
    proof (cases "bitsleft - codelen < 0")
      case True
      have "unpack_loop k self data bitsleft pos x n s = Some (Inr s, self)" if "0 < k" for k
      proof -
        from that obtain k0 where "k = Suc k0" by (cases k) auto
        with v True show ?thesis by (simp add: unpack_loop.simps)
      qed
      then show ?thesis by (intro exI [of _ "Inr s"]) simp
    next
      case False
      show ?thesis
      proof (cases "py_rshift (mx - code) (32 - codelen)")
        case (Inl e)
        have "unpack_loop k self data bitsleft pos x n s = Some (Inl e, self)" if "0 < k" for k
        proof -
          from that obtain k0 where "k = Suc k0" by (cases k) auto
          with v False Inl show ?thesis by (simp add: unpack_loop.simps)
        qed
        then show ?thesis by (intro exI [of _ "Inl e"]) simp
      next
        case (Inr r)
        from fetch_all_resolved [OF ar, of r] obtain fres where
          f: "\<forall>k. fetch k self r = Some (fres, self)" by blast
        show ?thesis
        proof (cases fres)
          case (Inl e)
          have "unpack_loop k self data bitsleft pos x n s = Some (Inl e, self)" if "0 < k" for k
          proof -
            from that obtain k0 where "k = Suc k0" by (cases k) auto
            with v False Inr f Inl show ?thesis by (simp add: unpack_loop.simps)
          qed
          then show ?thesis by (intro exI [of _ "Inl e"]) simp
        next
          case (Inr sl)
          have "nat (bitsleft - codelen) < nat bitsleft" using False cl by simp
          from less [OF this, of pos' x' "n' - codelen" "s @ sl"] obtain res where
            r1: "\<forall>k. bitsleft - codelen < int k \<and> 0 < k \<longrightarrow>
                   unpack_loop k self data (bitsleft - codelen) pos' x' (n' - codelen) (s @ sl)
                     = Some (res, self)"
            and r2: "\<forall>out. res = Inr out \<longrightarrow> (\<exists>t. out = (s @ sl) @ t)"
            by blast
          have "unpack_loop k self data bitsleft pos x n s = Some (res, self)"
            if "bitsleft < int k \<and> 0 < k" for k
          proof -
            from that obtain k0 where k0: "k = Suc k0" by (cases k) auto
            have "bitsleft - codelen < int k0 \<and> 0 < k0" using that k0 cl False by auto
            with r1 have "unpack_loop k0 self data (bitsleft - codelen) pos' x' (n' - codelen) (s @ sl)
                     = Some (res, self)" by blast
            with v False \<open>py_rshift (mx - code) (32 - codelen) = Inr r\<close> f Inr k0
            show ?thesis by (simp add: unpack_loop.simps)
          qed
          moreover have "\<forall>out. res = Inr out \<longrightarrow> (\<exists>t. out = s @ t)"
            using r2 by auto
          ultimately show ?thesis by blast
        qed
      qed
    qed
  qed
qed


lemma kept_refl: "resolved_kept self self"
  by (simp add: resolved_kept_def list_all2_same split: option.splits)

lemma kept_trans:
  assumes "resolved_kept a b" and "resolved_kept b c"
  shows "resolved_kept a c"
proof -
  have eq: "c = a\<lparr>dictionary := dictionary c\<rparr>"
  proof -
    have "b = a\<lparr>dictionary := dictionary b\<rparr>" using assms(1) by (simp add: resolved_kept_def)
    moreover have "c = b\<lparr>dictionary := dictionary c\<rparr>" using assms(2) by (simp add: resolved_kept_def)
    ultimately show ?thesis by (metis huffcdic.update_convs(4) huffcdic.surjective)
  qed
  show ?thesis
  proof (cases "dictionary a")
    case None
    with assms have "dictionary c = None" by (auto simp: resolved_kept_def split: option.splits)
    with None eq show ?thesis by (simp add: resolved_kept_def)
  next
    case (Some ds)
    with assms(1) obtain ds1 where b: "dictionary b = Some ds1"
      and l1: "list_all2 (\<lambda>a b. resolved a \<longrightarrow> b = a) ds ds1"
      by (auto simp: resolved_kept_def split: option.splits)
    with assms(2) obtain ds2 where c: "dictionary c = Some ds2"
      and l2: "list_all2 (\<lambda>a b. resolved a \<longrightarrow> b = a) ds1 ds2"
      by (auto simp: resolved_kept_def split: option.splits)
    have "list_all2 (\<lambda>a b. resolved a \<longrightarrow> b = a) ds ds2"
      using l1 l2 by (rule list_all2_trans [rotated]) auto
    with Some c eq show ?thesis by (simp add: resolved_kept_def)
  qed
qed

lemma kept_dictionary:
  assumes "resolved_kept self s2" and "dictionary self = Some ds"
  shows "\<exists>ds2. dictionary s2 = Some ds2 \<and> length ds2 = length ds
           \<and> (\<forall>i<length ds. resolved (ds ! i) \<longrightarrow> ds2 ! i = ds ! i)"
  using assms
  by (auto simp: resolved_kept_def list_all2_conv_all_nth split: option.splits)

lemma kept_update_unresolved:
  assumes k: "resolved_kept self s2" and d: "dictionary self = Some ds"
    and j: "\<not> resolved (ds ! j)" and d2: "dictionary s2 = Some ds2"
  shows "resolved_kept self (s2\<lparr>dictionary := Some (ds2[j := X])\<rparr>)"
proof -
  from kept_dictionary [OF k d] d2 have len: "length ds2 = length ds"
    and same: "\<forall>i<length ds. resolved (ds ! i) \<longrightarrow> ds2 ! i = ds ! i" by auto
  have "list_all2 (\<lambda>a b. resolved a \<longrightarrow> b = a) ds (ds2[j := X])"
    unfolding list_all2_conv_all_nth
  proof (intro conjI allI impI)
    show "length ds = length (ds2[j := X])" using len by simp
  next
    fix i assume "i < length ds" and r: "resolved (ds ! i)"
    then have "i \<noteq> j" using j by auto
    then show "ds2[j := X] ! i = ds ! i" using same \<open>i < length ds\<close> r by simp
  qed
  moreover have "s2 = self\<lparr>dictionary := dictionary s2\<rparr>" using k by (simp add: resolved_kept_def)
  then have "s2\<lparr>dictionary := Some (ds2[j := X])\<rparr>
               = self\<lparr>dictionary := dictionary (s2\<lparr>dictionary := Some (ds2[j := X])\<rparr>)\<rparr>"
    by (metis huffcdic.update_convs(4) huffcdic.select_convs(4) huffcdic.surjective)
  ultimately show ?thesis using d by (simp add: resolved_kept_def)
qed

lemma unpack_kept_from_loop:
  assumes "\<And>self data bl pos x n s res self'.
             unpack_loop k self data bl pos x n s = Some (res, self') \<Longrightarrow> resolved_kept self self'"
    and "unpack k self data = Some (res, self')"
  shows "resolved_kept self self'"
proof (cases "q (data @ replicate 8 0) 0")
  case (Inl e)
  with assms(2) have "self' = self" by (simp add: unpack.simps Let_def)
  then show ?thesis by (simp add: kept_refl)
next
  case (Inr x)
  with assms(2) have "unpack_loop k self (data @ replicate 8 0) (int (length data) * 8) 0 x 32 []
                        = Some (res, self')"
    by (simp add: unpack.simps Let_def)
  then show ?thesis by (rule assms(1))
qed

lemma fetch_kept_from_unpack:
  assumes u: "\<And>self data res self'. unpack k self data = Some (res, self') \<Longrightarrow> resolved_kept self self'"
    and f: "fetch k self r = Some (res, self')"
  shows "resolved_kept self self'"
proof (cases "dictionary self")
  case None
  with f have "self' = self" by (simp add: fetch.simps)
  then show ?thesis by (simp add: kept_refl)
next
  case (Some ds)
  show ?thesis
  proof (cases "py_index (length ds) r")
    case (Inl e)
    with f Some have "self' = self" by (simp add: fetch.simps)
    then show ?thesis by (simp add: kept_refl)
  next
    case (Inr j)
    show ?thesis
    proof (cases "ds ! j")
      case None
      with f Some Inr have "self' = self" by (simp add: fetch.simps)
      then show ?thesis by (simp add: kept_refl)
    next
      case (Some slot)
      obtain sl flag where slot: "slot = (sl, flag)" by (cases slot)
      show ?thesis
      proof (cases "flag = 0")
        case False
        with f \<open>dictionary self = Some ds\<close> Inr Some slot have "self' = self"
          by (simp add: fetch.simps)
        then show ?thesis by (simp add: kept_refl)
      next
        case True
        let ?s1 = "self\<lparr>dictionary := Some (ds[j := None])\<rparr>"
        have nr: "\<not> resolved (ds ! j)" using Some slot True by (simp add: resolved_def)
        have k1: "resolved_kept self ?s1"
          using kept_refl \<open>dictionary self = Some ds\<close> nr \<open>dictionary self = Some ds\<close>
          by (rule kept_update_unresolved)
        show ?thesis
        proof (cases "unpack k ?s1 sl")
          case None
          with f \<open>dictionary self = Some ds\<close> Inr Some slot True show ?thesis
            by (simp add: fetch.simps)
        next
          case (Some p)
          obtain ures s2 where p: "p = (ures, s2)" by (cases p)
          have k2: "resolved_kept ?s1 s2" using Some p by (auto intro: u)
          have k12: "resolved_kept self s2" using k1 k2 by (rule kept_trans)
          show ?thesis
          proof (cases ures)
            case (Inl e)
            with f \<open>dictionary self = Some ds\<close> Inr \<open>ds ! j = Some slot\<close> slot True Some p
            have "self' = s2" by (simp add: fetch.simps)
            with k12 show ?thesis by simp
          next
            case (Inr sl')
            from kept_dictionary [OF k12 \<open>dictionary self = Some ds\<close>] obtain ds2 where
              d2: "dictionary s2 = Some ds2" and len: "length ds2 = length ds" by blast
            from f \<open>dictionary self = Some ds\<close> \<open>py_index (length ds) r = Inr j\<close>
              \<open>ds ! j = Some slot\<close> slot True Some p Inr d2 len
            have "self' = s2\<lparr>dictionary := Some (ds2[j := Some (sl', 1)])\<rparr>"
              by (simp add: fetch.simps)
            moreover have "resolved_kept self (s2\<lparr>dictionary := Some (ds2[j := Some (sl', 1)])\<rparr>)"
              using k12 \<open>dictionary self = Some ds\<close> nr d2 by (rule kept_update_unresolved)
            ultimately show ?thesis by simp
          qed
        qed
      qed
    qed
  qed
qed

lemma loop_kept_step:
  assumes fe: "\<And>self r res self'. fetch k self r = Some (res, self') \<Longrightarrow> resolved_kept self self'"
    and lo: "\<And>self data bl pos x n s res self'.
             unpack_loop k self data bl pos x n s = Some (res, self') \<Longrightarrow> resolved_kept self self'"
    and l: "unpack_loop (Suc k) self data bl pos x n s = Some (res, self')"
  shows "resolved_kept self self'"
proof (cases "decode_next self data pos x n")
  case (Inl e)
  with l have "self' = self" by (simp add: unpack_loop.simps)
  then show ?thesis by (simp add: kept_refl)
next
  case (Inr v)
  then obtain pos' x' n' code codelen mx where
    v: "decode_next self data pos x n = Inr ((pos', x', n'), code, codelen, mx)"
    by (cases v) auto
  show ?thesis
  proof (cases "bl - codelen < 0")
    case True
    with l v have "self' = self" by (simp add: unpack_loop.simps)
    then show ?thesis by (simp add: kept_refl)
  next
    case False
    show ?thesis
    proof (cases "py_rshift (mx - code) (32 - codelen)")
      case (Inl e)
      with l v False have "self' = self" by (simp add: unpack_loop.simps)
      then show ?thesis by (simp add: kept_refl)
    next
      case (Inr r)
      show ?thesis
      proof (cases "fetch k self r")
        case None
        with l v False Inr show ?thesis by (simp add: unpack_loop.simps)
      next
        case (Some p)
        obtain fres s1 where p: "p = (fres, s1)" by (cases p)
        have k1: "resolved_kept self s1" using Some p by (auto intro: fe)
        show ?thesis
        proof (cases fres)
          case (Inl e)
          with l v False Inr Some p have "self' = s1" by (simp add: unpack_loop.simps)
          with k1 show ?thesis by simp
        next
          case (Inr sl)
          with l v False \<open>py_rshift (mx - code) (32 - codelen) = Inr r\<close> Some p
          have "unpack_loop k s1 data (bl - codelen) pos' x' (n' - codelen) (s @ sl) = Some (res, self')"
            by (simp add: unpack_loop.simps)
          then have "resolved_kept s1 self'" by (rule lo)
          with k1 show ?thesis by (rule kept_trans)
        qed
      qed
    qed
  qed
qed

lemma loop_kept:
  "unpack_loop k self data bl pos x n s = Some (res, self') \<Longrightarrow> resolved_kept self self'"
proof (induction k arbitrary: self data bl pos x n s res self')
  case 0
  then show ?case by (simp add: unpack_loop.simps)
next
  case (Suc k)
  have u: "\<And>self data res self'. unpack k self data = Some (res, self') \<Longrightarrow> resolved_kept self self'"
    using Suc.IH by (rule unpack_kept_from_loop)
  have f: "\<And>self r res self'. fetch k self r = Some (res, self') \<Longrightarrow> resolved_kept self self'"
    using u by (rule fetch_kept_from_unpack)
  show ?case using f Suc.IH Suc.prems by (rule loop_kept_step)
qed

lemma unpack_kept: "unpack k self data = Some (res, self') \<Longrightarrow> resolved_kept self self'"
  using loop_kept by (rule unpack_kept_from_loop)

lemma fetch_kept: "fetch k self r = Some (res, self') \<Longrightarrow> resolved_kept self self'"
  using unpack_kept by (rule fetch_kept_from_unpack)

subsection \<open>Termination of the main loop\<close>

text \<open>
  With a fast table of entries \<open>0x00000088\<close> (code length 8, terminal) and a dictionary
  of one resolved slot, the record \<open>00 02 00\<close> appends the slot's bytes in its first
  round and computes the index \<open>-2\<close> in its second. \<open>unpack\<close> raises IndexError: the loop
  has ended, but not by the bit counter, and the bytes appended so far are not returned.
\<close>

theorem unpack_raises_counterexample:
  "codelens_positive
     \<lparr>dict1 = Some (replicate 256 (8, 0x80, 0xFFFFFF)), mincode = Some [], maxcode = Some [],
       dictionary = Some [Some ([0x41], 0x8000)]\<rparr>
   \<and> all_resolved
     \<lparr>dict1 = Some (replicate 256 (8, 0x80, 0xFFFFFF)), mincode = Some [], maxcode = Some [],
       dictionary = Some [Some ([0x41], 0x8000)]\<rparr>
   \<and> unpack 25
        \<lparr>dict1 = Some (replicate 256 (8, 0x80, 0xFFFFFF)), mincode = Some [], maxcode = Some [],
          dictionary = Some [Some ([0x41], 0x8000)]\<rparr> [0x00, 0x02, 0x00] =
       Some (Inl IndexError,
        \<lparr>dict1 = Some (replicate 256 (8, 0x80, 0xFFFFFF)), mincode = Some [], maxcode = Some [],
          dictionary = Some [Some ([0x41], 0x8000)]\<rparr>)"
proof -
  let ?st = "\<lparr>dict1 = Some (replicate 256 (8, 0x80, 0xFFFFFF)), mincode = Some [], maxcode = Some [],
       dictionary = Some [Some ([0x41], 0x8000)]\<rparr>"
  have cp: "codelens_positive ?st" by (simp add: codelens_positive_def list_all_iff)
  have ar: "all_resolved ?st" by (simp add: all_resolved_def resolved_def)
  have u: "unpack 25 ?st [0x00, 0x02, 0x00] = Some (Inl IndexError, ?st)" by code_simp
  from cp ar u show ?thesis by blast
qed

text \<open>
  Claim C7, as the code has it. Let every entry of the fast table have a code length of
  at least 1 and every dictionary slot be resolved. Then a round of the loop consumes at
  least one bit, and \<open>unpack\<close> ends within \<open>8 * len(data) + 1\<close> rounds for every record:
  with that much fuel or more it gives one and the same result and leaves the object as
  it was. The loop entered with bit counter \<open>bitsleft\<close> and output \<open>s\<close> ends within
  \<open>max(bitsleft, 0) + 1\<close> rounds, and an output it returns is \<open>s\<close> followed by what the
  rounds before the last one appended. Round by round: when the bit counter goes negative
  the loop returns exactly the output \<open>s\<close> accumulated so far; a round whose index
  denotes a slot appends exactly that slot's bytes and the loop goes on with the counter
  reduced by the code length; a round that raises (in reading the window or the tables,
  in the shift, by an index out of range, or for want of a dictionary) ends the loop
  with that exception and no output.
\<close>

theorem unpack_terminates:
  assumes "codelens_positive self" and "all_resolved self"
  shows "(\<exists>res. \<forall>k. 8 * length data + 1 \<le> k \<longrightarrow> unpack k self data = Some (res, self))
       \<and> (\<exists>res. (\<forall>k. bitsleft < int k \<and> 0 < k \<longrightarrow>
                     unpack_loop k self data bitsleft pos x n s = Some (res, self))
                 \<and> (\<forall>out. res = Inr out \<longrightarrow> (\<exists>t. out = s @ t)))
       \<and> (decode_next self data pos x n = Inr (w, code, codelen, mx) \<longrightarrow> 1 \<le> codelen)
       \<and> (decode_next self data pos x n = Inr (w, code, codelen, mx) \<and> bitsleft - codelen < 0 \<longrightarrow>
            unpack_loop (Suc k) self data bitsleft pos x n s = Some (Inr s, self))
       \<and> (decode_next self data pos x n = Inr ((pos', x', n'), code, codelen, mx)
            \<and> \<not> bitsleft - codelen < 0 \<and> py_rshift (mx - code) (32 - codelen) = Inr r
            \<and> dictionary self = Some ds \<and> py_index (length ds) r = Inr j
            \<and> ds ! j = Some (sl, flag) \<longrightarrow>
            unpack_loop (Suc k) self data bitsleft pos x n s =
              unpack_loop k self data (bitsleft - codelen) pos' x' (n' - codelen) (s @ sl))
       \<and> (decode_next self data pos x n = Inl e \<longrightarrow>
            unpack_loop (Suc k) self data bitsleft pos x n s = Some (Inl e, self))
       \<and> (decode_next self data pos x n = Inr (w, code, codelen, mx)
            \<and> \<not> bitsleft - codelen < 0 \<and> py_rshift (mx - code) (32 - codelen) = Inl e \<longrightarrow>
            unpack_loop (Suc k) self data bitsleft pos x n s = Some (Inl e, self))
       \<and> (decode_next self data pos x n = Inr (w, code, codelen, mx)
            \<and> \<not> bitsleft - codelen < 0 \<and> py_rshift (mx - code) (32 - codelen) = Inr r
            \<and> dictionary self = Some ds \<and> py_index (length ds) r = Inl e \<longrightarrow>
            unpack_loop (Suc k) self data bitsleft pos x n s = Some (Inl e, self))
       \<and> (decode_next self data pos x n = Inr (w, code, codelen, mx)
            \<and> \<not> bitsleft - codelen < 0 \<and> py_rshift (mx - code) (32 - codelen) = Inr r
            \<and> dictionary self = None \<longrightarrow>
            unpack_loop (Suc k) self data bitsleft pos x n s = Some (Inl AttributeError, self))"
proof -
  have a: "\<exists>res. \<forall>k. 8 * length data + 1 \<le> k \<longrightarrow> unpack k self data = Some (res, self)"
  proof (cases "q (data @ replicate 8 0) 0")
    case (Inl e)
    then have "\<forall>k. unpack k self data = Some (Inl e, self)"
      by (simp add: unpack.simps Let_def)
    then show ?thesis by blast
  next
    case (Inr x0)
    from loop_terminates [OF assms, of "int (length data) * 8" "data @ replicate 8 0" 0 x0 32 "[]"]
    obtain res where
      r: "\<forall>k. int (length data) * 8 < int k \<and> 0 < k \<longrightarrow>
            unpack_loop k self (data @ replicate 8 0) (int (length data) * 8) 0 x0 32 [] = Some (res, self)"
      by blast
    have "unpack k self data = Some (res, self)" if "8 * length data + 1 \<le> k" for k
    proof -
      have "int (length data) * 8 < int k \<and> 0 < k" using that by linarith
      with r Inr show ?thesis by (simp add: unpack.simps Let_def)
    qed
    then show ?thesis by blast
  qed
  have c: "decode_next self data pos x n = Inr (w, code, codelen, mx) \<longrightarrow> 1 \<le> codelen"
    using decode_next_codelen [OF assms(1)] by blast
  obtain wp wx wn where w: "w = (wp, wx, wn)" by (cases w)
  have d: "unpack_loop (Suc k) self data bitsleft pos x n s = Some (Inr s, self)"
    if "decode_next self data pos x n = Inr (w, code, codelen, mx) \<and> bitsleft - codelen < 0"
    using that w by (simp add: unpack_loop.simps)
  have f: "unpack_loop (Suc k) self data bitsleft pos x n s =
              unpack_loop k self data (bitsleft - codelen) pos' x' (n' - codelen) (s @ sl)"
    if h: "decode_next self data pos x n = Inr ((pos', x', n'), code, codelen, mx)
            \<and> \<not> bitsleft - codelen < 0 \<and> py_rshift (mx - code) (32 - codelen) = Inr r
            \<and> dictionary self = Some ds \<and> py_index (length ds) r = Inr j
            \<and> ds ! j = Some (sl, flag)"
  proof -
    from h have dn: "decode_next self data pos x n = Inr ((pos', x', n'), code, codelen, mx)"
      and bl: "\<not> bitsleft - codelen < 0"
      and sh: "py_rshift (mx - code) (32 - codelen) = Inr r"
      and ds: "dictionary self = Some ds" and ix: "py_index (length ds) r = Inr j"
      and sl: "ds ! j = Some (sl, flag)" by blast+
    from ix have "j < length ds" by (rule py_index_less)
    with assms(2) ds have "resolved (ds ! j)" by (simp add: all_resolved_def list_all_length)
    with sl have "flag \<noteq> 0" by (simp add: resolved_def)
    with ds ix sl have "fetch k self r = Some (Inr sl, self)" by (rule fetch_resolved)
    with dn bl sh show ?thesis by (simp add: unpack_loop.simps)
  qed
  have g1: "unpack_loop (Suc k) self data bitsleft pos x n s = Some (Inl e, self)"
    if "decode_next self data pos x n = Inl e"
    using that by (simp add: unpack_loop.simps)
  have g2: "unpack_loop (Suc k) self data bitsleft pos x n s = Some (Inl e, self)"
    if "decode_next self data pos x n = Inr (w, code, codelen, mx)
            \<and> \<not> bitsleft - codelen < 0 \<and> py_rshift (mx - code) (32 - codelen) = Inl e"
    using that w by (simp add: unpack_loop.simps)
  have g3: "unpack_loop (Suc k) self data bitsleft pos x n s = Some (Inl e, self)"
    if h: "decode_next self data pos x n = Inr (w, code, codelen, mx)
            \<and> \<not> bitsleft - codelen < 0 \<and> py_rshift (mx - code) (32 - codelen) = Inr r
            \<and> dictionary self = Some ds \<and> py_index (length ds) r = Inl e"
  proof -
    from h have "fetch k self r = Some (Inl e, self)" by (simp add: fetch.simps)
    with h w show ?thesis by (simp add: unpack_loop.simps)
  qed
  have g4: "unpack_loop (Suc k) self data bitsleft pos x n s = Some (Inl AttributeError, self)"
    if h: "decode_next self data pos x n = Inr (w, code, codelen, mx)
            \<and> \<not> bitsleft - codelen < 0 \<and> py_rshift (mx - code) (32 - codelen) = Inr r
            \<and> dictionary self = None"
  proof -
    from h have "fetch k self r = Some (Inl AttributeError, self)" by (simp add: fetch.simps)
    with h w show ?thesis by (simp add: unpack_loop.simps)
  qed
  from a loop_terminates [OF assms, of bitsleft data pos x n s] c d f g1 g2 g3 g4
  show ?thesis by blast
qed

theorem unpack_terminates_witness:
  "codelens_positive
     \<lparr>dict1 = Some (replicate 128 (8, 0x80, 0x7FFFFFFF) @ replicate 128 (9, 0, 0x7FFFFF)),
       mincode = Some (replicate 9 0 @ [0x100000000, 0x80000000] @ replicate 22 0),
       maxcode = Some (replicate 10 0 @ [0xFFFFFFFF] @ replicate 22 0),
       dictionary = Some [Some ([0x41], 0x8000), Some ([0x42], 1), Some ([0x43], 1)]\<rparr>
   \<and> all_resolved
     \<lparr>dict1 = Some (replicate 128 (8, 0x80, 0x7FFFFFFF) @ replicate 128 (9, 0, 0x7FFFFF)),
       mincode = Some (replicate 9 0 @ [0x100000000, 0x80000000] @ replicate 22 0),
       maxcode = Some (replicate 10 0 @ [0xFFFFFFFF] @ replicate 22 0),
       dictionary = Some [Some ([0x41], 0x8000), Some ([0x42], 1), Some ([0x43], 1)]\<rparr>
   \<and> unpack 1000
     \<lparr>dict1 = Some (replicate 128 (8, 0x80, 0x7FFFFFFF) @ replicate 128 (9, 0, 0x7FFFFF)),
       mincode = Some (replicate 9 0 @ [0x100000000, 0x80000000] @ replicate 22 0),
       maxcode = Some (replicate 10 0 @ [0xFFFFFFFF] @ replicate 22 0),
       dictionary = Some [Some ([0x41], 0x8000), Some ([0x42], 1), Some ([0x43], 1)]\<rparr>
     [0x7F, 0x7E, 0x7D, 0x7E, 0xFF, 0xC0] =
     Some (Inr [0x41, 0x42, 0x43, 0x42, 0x41],
     \<lparr>dict1 = Some (replicate 128 (8, 0x80, 0x7FFFFFFF) @ replicate 128 (9, 0, 0x7FFFFF)),
       mincode = Some (replicate 9 0 @ [0x100000000, 0x80000000] @ replicate 22 0),
       maxcode = Some (replicate 10 0 @ [0xFFFFFFFF] @ replicate 22 0),
       dictionary = Some [Some ([0x41], 0x8000), Some ([0x42], 1), Some ([0x43], 1)]\<rparr>)"
proof -
  let ?st = "\<lparr>dict1 = Some (replicate 128 (8, 0x80, 0x7FFFFFFF) @ replicate 128 (9, 0, 0x7FFFFF)),
       mincode = Some (replicate 9 0 @ [0x100000000, 0x80000000] @ replicate 22 0),
       maxcode = Some (replicate 10 0 @ [0xFFFFFFFF] @ replicate 22 0),
       dictionary = Some [Some ([0x41], 0x8000), Some ([0x42], 1), Some ([0x43], 1)]\<rparr>"
  let ?data = "[0x7F, 0x7E, 0x7D, 0x7E, 0xFF, 0xC0] :: bytes"
  have cp: "codelens_positive ?st" by (simp add: codelens_positive_def list_all_iff)
  have ar: "all_resolved ?st" by (simp add: all_resolved_def resolved_def)
  from unpack_terminates [OF cp ar, where data = ?data, THEN conjunct1] obtain res where
    r: "\<forall>k. 8 * length ?data + 1 \<le> k \<longrightarrow> unpack k ?st ?data = Some (res, ?st)"
    by (rule exE)
  have "8 * length ?data + 1 \<le> 49" by simp
  with r have "unpack 49 ?st ?data = Some (res, ?st)" by blast
  moreover have "unpack 49 ?st ?data = Some (Inr [0x41, 0x42, 0x43, 0x42, 0x41], ?st)" by code_simp
  ultimately have res: "res = Inr [0x41, 0x42, 0x43, 0x42, 0x41]" by simp
  have "8 * length ?data + 1 \<le> 1000" by simp
  with r have "unpack 1000 ?st ?data = Some (res, ?st)" by blast
  with res cp ar show ?thesis by simp
qed

subsection \<open>The dictionary index\<close>

text \<open>
  With a fast table of entries \<open>0x00000088\<close> (code length 8, terminal, maximal code
  \<open>0xFFFFFF\<close>) and a dictionary of one slot, the record \<open>[0x01]\<close> yields the index
  \<open>r = -1\<close>. Python's \<open>self.dictionary[-1]\<close> is the last slot, and \<open>unpack\<close> returns
  its bytes.
\<close>

theorem negative_index_aliases_counterexample:
  "dict1_unpack 0x88 = Inr (8, 0x80, 0xFFFFFF)
   \<and> py_rshift (0xFFFFFF - 0x01000000) (32 - 8) = Inr (- 1)
   \<and> py_index (length [Some ([0x41 :: byte], 0x8000 :: int)]) (- 1) = Inr 0
   \<and> unpack 2
        \<lparr>dict1 = Some (replicate 256 (8, 0x80, 0xFFFFFF)), mincode = Some [], maxcode = Some [],
          dictionary = Some [Some ([0x41], 0x8000)]\<rparr> [0x01] =
       Some (Inr [0x41],
        \<lparr>dict1 = Some (replicate 256 (8, 0x80, 0xFFFFFF)), mincode = Some [], maxcode = Some [],
          dictionary = Some [Some ([0x41], 0x8000)]\<rparr>)"
  by code_simp

text \<open>
  Claim C2, as the code has it. When a round computes a dictionary index \<open>r\<close> with
  \<open>r \<ge> len(self.dictionary)\<close> or \<open>r < -len(self.dictionary)\<close>, \<open>unpack\<close> raises
  IndexError in that round without reading a slot. An index \<open>-len \<le> r < 0\<close> is not
  rejected: it denotes slot \<open>len + r\<close>, and with that slot resolved the round appends
  its bytes and the loop goes on.
\<close>

theorem index_out_of_range:
  assumes "dictionary self = Some ds"
    and "decode_next self data pos x n = Inr ((pos', x', n'), code, codelen, mx)"
    and "\<not> bitsleft - codelen < 0"
    and "py_rshift (mx - code) (32 - codelen) = Inr r"
  shows "(int (length ds) \<le> r \<or> r < - int (length ds) \<longrightarrow>
            unpack_loop (Suc k) self data bitsleft pos x n s = Some (Inl IndexError, self))
       \<and> (- int (length ds) \<le> r \<and> r < 0 \<and> ds ! nat (int (length ds) + r) = Some (sl, flag)
            \<and> flag \<noteq> 0 \<longrightarrow>
            unpack_loop (Suc k) self data bitsleft pos x n s =
              unpack_loop k self data (bitsleft - codelen) pos' x' (n' - codelen) (s @ sl))"
proof -
  have a: "unpack_loop (Suc k) self data bitsleft pos x n s = Some (Inl IndexError, self)"
    if "int (length ds) \<le> r \<or> r < - int (length ds)"
  proof -
    have "py_index (length ds) r = Inl IndexError"
      using that by (auto simp: py_index_def Let_def)
    then have "fetch k self r = Some (Inl IndexError, self)"
      using assms(1) by (simp add: fetch.simps)
    then show ?thesis using assms by (simp add: unpack_loop.simps)
  qed
  have b: "unpack_loop (Suc k) self data bitsleft pos x n s =
              unpack_loop k self data (bitsleft - codelen) pos' x' (n' - codelen) (s @ sl)"
    if "- int (length ds) \<le> r \<and> r < 0 \<and> ds ! nat (int (length ds) + r) = Some (sl, flag) \<and> flag \<noteq> 0"
  proof -
    have "py_index (length ds) r = Inr (nat (int (length ds) + r))"
      using that by (auto simp: py_index_def Let_def)
    then have "fetch k self r = Some (Inr sl, self)"
      using assms(1) that by (simp add: fetch_resolved)
    then show ?thesis using assms by (simp add: unpack_loop.simps)
  qed
  from a b show ?thesis by blast
qed

theorem index_out_of_range_witness:
  "unpack_loop (Suc 0)
        \<lparr>dict1 = Some (replicate 256 (8, 0x80, 0xFFFFFF)), mincode = Some [], maxcode = Some [],
          dictionary = Some [Some ([0x41], 0x8000)]\<rparr>
        ([0x02] @ replicate 8 0) 8 0 0x0200000000000000 32 [] =
       Some (Inl IndexError,
        \<lparr>dict1 = Some (replicate 256 (8, 0x80, 0xFFFFFF)), mincode = Some [], maxcode = Some [],
          dictionary = Some [Some ([0x41], 0x8000)]\<rparr>)
   \<and> py_rshift (0xFFFFFF - 0x02000000) (32 - 8) = Inr (- 2)"
proof -
  let ?st = "\<lparr>dict1 = Some (replicate 256 (8, 0x80, 0xFFFFFF)), mincode = Some [], maxcode = Some [],
       dictionary = Some [Some ([0x41], 0x8000)]\<rparr>"
  have d: "dictionary ?st = Some [Some ([0x41], 0x8000)]" by simp
  have dn: "decode_next ?st ([0x02] @ replicate 8 0) 0 0x0200000000000000 32
              = Inr ((0, 0x0200000000000000, 32), 0x02000000, 8, 0xFFFFFF)"
    by code_simp
  have bl: "\<not> (8 :: int) - 8 < 0" by simp
  have sh: "py_rshift (0xFFFFFF - 0x02000000) (32 - 8) = Inr (- 2)" by code_simp
  have r: "int (length [Some ([0x41 :: byte], 0x8000 :: int)]) \<le> - 2
             \<or> - 2 < - int (length [Some ([0x41 :: byte], 0x8000 :: int)])" by simp
  from index_out_of_range [OF d dn bl sh, of 0 "[]"] r sh show ?thesis by blast
qed

subsection \<open>Memoization of the dictionary slots\<close>

text \<open>
  Claim C6. Let a round reference slot \<open>j\<close> through the index \<open>r\<close>. If the slot is
  resolved, the reference returns its bytes and leaves the object unchanged, with any
  fuel, also none: no decoder runs. If the slot is unresolved (flag 0) and the reference
  returns \<open>out\<close>, then \<open>out\<close> is what one run of \<open>unpack\<close> on the slot's bytes returned
  (with the slot set to \<open>None\<close> meanwhile), and the slot now holds \<open>(out, 1)\<close>. After
  that, whatever records are decoded next, a reference to the same index returns \<open>out\<close>
  without fuel. In general a run of \<open>unpack\<close> changes no resolved slot and nothing but
  the dictionary (\<open>resolved_kept\<close>), so a slot's bytes are decoded at most once.
\<close>

theorem slot_resolved_once:
  assumes "dictionary self = Some ds" and "py_index (length ds) r = Inr j"
    and "ds ! j = Some (sl, flag)"
  shows "(flag \<noteq> 0 \<longrightarrow> fetch k self r = Some (Inr sl, self))
       \<and> (flag = 0 \<and> fetch k self r = Some (Inr out, self') \<longrightarrow>
            (\<exists>self1 ds1. unpack k (self\<lparr>dictionary := Some (ds[j := None])\<rparr>) sl = Some (Inr out, self1)
               \<and> dictionary self1 = Some ds1
               \<and> self' = self1\<lparr>dictionary := Some (ds1[j := Some (out, 1)])\<rparr>
               \<and> length ds1 = length ds))
       \<and> (flag = 0 \<and> fetch k self r = Some (Inr out, self') \<and> unpack k2 self' data = Some (res, self2)
            \<longrightarrow> fetch k3 self2 r = Some (Inr out, self2))
       \<and> (unpack k2 self data = Some (res, self2) \<longrightarrow> resolved_kept self self2)"
proof -
  have jl: "j < length ds" using assms(2) by (rule py_index_less)
  have a: "fetch k self r = Some (Inr sl, self)" if "flag \<noteq> 0"
    using assms that by (rule fetch_resolved)
  have b: "\<exists>self1 ds1. unpack k (self\<lparr>dictionary := Some (ds[j := None])\<rparr>) sl = Some (Inr out, self1)
               \<and> dictionary self1 = Some ds1
               \<and> self' = self1\<lparr>dictionary := Some (ds1[j := Some (out, 1)])\<rparr>
               \<and> length ds1 = length ds"
    if h: "flag = 0 \<and> fetch k self r = Some (Inr out, self')"
  proof -
    let ?s1 = "self\<lparr>dictionary := Some (ds[j := None])\<rparr>"
    have d1: "dictionary ?s1 = Some (ds[j := None])" by simp
    from h have f0: "flag = 0" by blast
    from h assms f0 have fe:
      "(case unpack k ?s1 sl of
          None \<Rightarrow> None
        | Some (Inl e, self') \<Rightarrow> Some (Inl e, self')
        | Some (Inr sl', self') \<Rightarrow>
           (case dictionary self' of
              None \<Rightarrow> Some (Inl AttributeError, self')
            | Some ds' \<Rightarrow>
               (case py_index (length ds') r of
                  Inl e \<Rightarrow> Some (Inl e, self')
                | Inr j' \<Rightarrow>
                   Some (Inr sl', self'\<lparr>dictionary := Some (ds'[j' := Some (sl', 1)])\<rparr>))))
         = Some (Inr out, self')"
      by (simp add: fetch.simps)
    show ?thesis
    proof (cases "unpack k ?s1 sl")
      case None
      with fe show ?thesis by simp
    next
      case (Some p)
      obtain ures s2 where p: "p = (ures, s2)" by (cases p)
      from Some p have "resolved_kept ?s1 s2" by (auto intro: unpack_kept)
      from kept_dictionary [OF this d1] obtain ds2 where
        d2: "dictionary s2 = Some ds2" and len: "length ds2 = length ds" by auto
      show ?thesis
      proof (cases ures)
        case (Inl e)
        with fe Some p show ?thesis by simp
      next
        case (Inr sl')
        with fe assms(2) Some p d2 len have "sl' = out"
          and "self' = s2\<lparr>dictionary := Some (ds2[j := Some (out, 1)])\<rparr>"
          by auto
        with Some p Inr d2 len show ?thesis by simp
      qed
    qed
  qed
  have c: "fetch k3 self2 r = Some (Inr out, self2)"
    if h: "flag = 0 \<and> fetch k self r = Some (Inr out, self') \<and> unpack k2 self' data = Some (res, self2)"
  proof -
    from b h obtain self1 ds1 where d1: "dictionary self1 = Some ds1"
      and s': "self' = self1\<lparr>dictionary := Some (ds1[j := Some (out, 1)])\<rparr>"
      and len: "length ds1 = length ds" by blast
    have d': "dictionary self' = Some (ds1[j := Some (out, 1)])" using s' by simp
    from h have "resolved_kept self' self2" by (auto intro: unpack_kept)
    from kept_dictionary [OF this d'] obtain ds2 where
      d2: "dictionary self2 = Some ds2" and len2: "length ds2 = length (ds1[j := Some (out, 1)])"
      and same: "\<forall>i<length (ds1[j := Some (out, 1)]).
                   resolved (ds1[j := Some (out, 1)] ! i) \<longrightarrow> ds2 ! i = ds1[j := Some (out, 1)] ! i"
      by blast
    have "ds2 ! j = Some (out, 1)" using same jl len by (simp add: resolved_def)
    moreover have "py_index (length ds2) r = Inr j" using assms(2) len len2 by simp
    ultimately show ?thesis using d2 by (simp add: fetch_resolved)
  qed
  have d: "unpack k2 self data = Some (res, self2) \<longrightarrow> resolved_kept self self2"
    using unpack_kept by blast
  from a b c d show ?thesis by blast
qed


theorem slot_resolved_once_witness:
  "fetch 3
     \<lparr>dict1 = Some (replicate 256 (8, 0x80, 0x1FFFFFF)), mincode = Some [], maxcode = Some [],
       dictionary = Some [Some ([0x00, 0x00], 0), Some ([0x41], 0x8000)]\<rparr> 0 =
     Some (Inr [0x41, 0x41],
       \<lparr>dict1 = Some (replicate 256 (8, 0x80, 0x1FFFFFF)), mincode = Some [], maxcode = Some [],
         dictionary = Some [Some ([0x41, 0x41], 1), Some ([0x41], 0x8000)]\<rparr>)
   \<and> unpack 5
     \<lparr>dict1 = Some (replicate 256 (8, 0x80, 0x1FFFFFF)), mincode = Some [], maxcode = Some [],
       dictionary = Some [Some ([0x41, 0x41], 1), Some ([0x41], 0x8000)]\<rparr> [0x01] =
     Some (Inr [0x41, 0x41],
       \<lparr>dict1 = Some (replicate 256 (8, 0x80, 0x1FFFFFF)), mincode = Some [], maxcode = Some [],
         dictionary = Some [Some ([0x41, 0x41], 1), Some ([0x41], 0x8000)]\<rparr>)
   \<and> fetch 0
     \<lparr>dict1 = Some (replicate 256 (8, 0x80, 0x1FFFFFF)), mincode = Some [], maxcode = Some [],
       dictionary = Some [Some ([0x41, 0x41], 1), Some ([0x41], 0x8000)]\<rparr> 0 =
     Some (Inr [0x41, 0x41],
       \<lparr>dict1 = Some (replicate 256 (8, 0x80, 0x1FFFFFF)), mincode = Some [], maxcode = Some [],
         dictionary = Some [Some ([0x41, 0x41], 1), Some ([0x41], 0x8000)]\<rparr>)"
proof -
  let ?st = "\<lparr>dict1 = Some (replicate 256 (8, 0x80, 0x1FFFFFF)), mincode = Some [], maxcode = Some [],
       dictionary = Some [Some ([0x00, 0x00], 0), Some ([0x41], 0x8000)]\<rparr>"
  let ?st' = "\<lparr>dict1 = Some (replicate 256 (8, 0x80, 0x1FFFFFF)), mincode = Some [], maxcode = Some [],
       dictionary = Some [Some ([0x41, 0x41], 1), Some ([0x41], 0x8000)]\<rparr>"
  have d: "dictionary ?st = Some [Some ([0x00, 0x00], 0), Some ([0x41], 0x8000)]" by simp
  have i: "py_index (length [Some ([0x00, 0x00 :: byte], 0 :: int), Some ([0x41], 0x8000)]) 0 = Inr 0"
    by (simp add: py_index_def)
  have s: "[Some ([0x00, 0x00 :: byte], 0 :: int), Some ([0x41], 0x8000)] ! 0 = Some ([0x00, 0x00], 0)"
    by simp
  have f: "fetch 3 ?st 0 = Some (Inr [0x41, 0x41], ?st')" by code_simp
  have u: "unpack 5 ?st' [0x01] = Some (Inr [0x41, 0x41], ?st')" by code_simp
  from slot_resolved_once [OF d i s, of 3 "[0x41, 0x41]" ?st' 5 "[0x01]" "Inr [0x41, 0x41]" ?st' 0] f u
  have "fetch 0 ?st' 0 = Some (Inr [0x41, 0x41], ?st')" by blast
  with f u show ?thesis by blast
qed

end
